theory Spec2Isabelle
  imports Main "HOL-Library.Word" "HOL-Library.Log_Nat"
begin

section \<open>The output predictor of pkg/cache/output\_predictor.go\<close>

text \<open>
  The predictor keeps a ring of per-interval histograms (\<open>rotatingHistory\<close>), a summary
  histogram (\<open>inputs\<close>) with its row sums (\<open>inputsSums\<close>), and answers predictions from
  the summary. The embedding is sequential: a rotation started by \<open>tryRotate\<close> runs to
  its end before the trace is added, which is the order the source enforces in its
  testing mode (\<open>testWait\<close>). The lock, the wait group and the \<open>testing\<close> flag carry no
  data and are left out; the random source \<open>p.rand\<close> is an argument of \<open>Predict\<close>.
  What the source takes from Go's library and runtime, and cannot be computed from the
  repository, is an argument of the function that uses it, never a fixed choice:
  the two floating-point expressions (\<open>roundLog2\<close>, \<open>ceilLog2\<close>), the two random
  sources (\<open>rand\<close>, \<open>intn\<close>) and the largest slice the runtime allocates
  (\<open>maxLen\<close>).

  Conventions.
  \<^item> Go's \<open>int32\<close> is \<open>32 word\<close>: \<open>atomic.AddInt32\<close> and \<open>forwarded++\<close> wrap around,
    comparisons read the word with \<open>sint\<close>.
  \<^item> Go's \<open>int\<close> is \<open>int\<close>; where the source can leave the 64-bit range
    (\<open>maxInputTokens + 1\<close>, the products of bucket counts) the wrap is written with \<open>i64\<close>.
  \<^item> \<open>time.Time\<close> is an \<open>int\<close> of nanoseconds on one clock and \<open>time.Duration\<close> an
    \<open>int\<close> of nanoseconds; \<open>Time.Sub\<close> saturates as in the library.
  \<^item> A runtime panic is a value \<open>Inl e\<close> of \<open>go_panic + 'a\<close>; a loop that may run forever
    returns an \<open>option\<close>, \<open>None\<close> standing for no return.
  \<^item> Floating point is not modelled. \<open>roundLog2 n\<close> stands for the value of
    \<open>int(math.Round(math.Log2(float64(n))))\<close> and \<open>ceilLog2 x\<close> for the value of
    \<open>int(math.Ceil(math.Log2(float64(x))))\<close>, whatever the library makes of them
    (for \<open>x \<le> 0\<close> the logarithm is \<open>-Inf\<close> or \<open>NaN\<close> and Go leaves the conversion
    to the implementation). A theorem that needs a fact about these values states it as
    a hypothesis on the argument.
\<close>

subsection \<open>Machine values, panics, checked slice accesses\<close>

type_synonym int32 = "32 word"
type_synonym outputDistribution = "int32 list"
type_synonym Time = int
type_synonym Duration = int

datatype go_panic = IndexOutOfRange | DivideByZero | MakeSliceLen | InvalidArgument

definition i64 :: "int \<Rightarrow> int" where
  "i64 x = signed_take_bit 63 x"

definition get_at :: "'a list \<Rightarrow> int \<Rightarrow> go_panic + 'a" where
  "get_at xs i = (if 0 \<le> i \<and> i < int (length xs) then Inr (xs ! nat i) else Inl IndexOutOfRange)"

definition put_at :: "'a list \<Rightarrow> int \<Rightarrow> 'a \<Rightarrow> go_panic + 'a list" where
  "put_at xs i v = (if 0 \<le> i \<and> i < int (length xs) then Inr (xs[nat i := v]) else Inl IndexOutOfRange)"

text \<open>\<open>atomic.AddInt32(&xs[i], d)\<close>, the bounds check of \<open>&xs[i]\<close> included.\<close>

definition add_at :: "int32 list \<Rightarrow> int \<Rightarrow> int32 \<Rightarrow> go_panic + int32 list" where
  "add_at xs i d =
     (if 0 \<le> i \<and> i < int (length xs) then Inr (xs[nat i := xs ! nat i + d])
      else Inl IndexOutOfRange)"

text \<open>
  \<open>make([]int32, n)\<close>: a negative length panics, and so does a length above \<open>maxLen\<close>,
  the largest length the runtime allocates (the model does not tell a length the
  runtime refuses from one the machine has no memory for: neither returns).
\<close>

definition make_int32 :: "int \<Rightarrow> int \<Rightarrow> go_panic + int32 list" where
  "make_int32 maxLen n =
     (if n < 0 \<or> maxLen < n then Inl MakeSliceLen else Inr (replicate (nat n) 0))"

text \<open>Go's \<open>/\<close> and \<open>%\<close> truncate towards zero.\<close>

definition go_quot :: "int \<Rightarrow> int \<Rightarrow> int" where
  "go_quot a b = sgn a * sgn b * (\<bar>a\<bar> div \<bar>b\<bar>)"

definition go_rem :: "int \<Rightarrow> int \<Rightarrow> int" where
  "go_rem a b = a - b * go_quot a b"

subsection \<open>Time\<close>

definition maxDuration :: Duration where
  "maxDuration = 2 ^ 63 - 1"

definition minDuration :: Duration where
  "minDuration = - (2 ^ 63)"

definition Sub :: "Time \<Rightarrow> Time \<Rightarrow> Duration" where
  "Sub t u =
     (let d = t - u in
      if maxDuration < d then maxDuration else if d < minDuration then minDuration else d)"

definition MovingInterval :: Duration where
  "MovingInterval = 10000000000"

definition MaxOutputLen :: int where
  "MaxOutputLen = 4096"

datatype ColdPredictionStrategy =
  OptimisticColdPrediction | RandomColdPredition | InputColdPrediction | PessimiticColdPrediction

definition DefaultColdPrediction :: ColdPredictionStrategy where
  "DefaultColdPrediction = OptimisticColdPrediction"

subsection \<open>The state\<close>

record rotatingHistory =
  window :: "outputDistribution list"
  head :: nat
  tail :: nat
  headTimestamp :: Time
  size32 :: int32

record SimpleOutputPredictor =
  history :: rotatingHistory
  inputs :: outputDistribution
  inputsSums :: "int32 list"
  inputBuckets :: int
  outputBuckets :: int

subsection \<open>Bucketizer\<close>

text \<open>\<open>int(math.Pow(2, float64(k)))\<close>: exact for \<open>0 \<le> k \<le> 62\<close>, and 0 for a negative \<open>k\<close>.\<close>

definition pow2 :: "int \<Rightarrow> int" where
  "pow2 k = (if 0 \<le> k then 2 ^ nat k else 0)"

definition token2bucket :: "(int \<Rightarrow> int) \<Rightarrow> int \<Rightarrow> int \<Rightarrow> int" where
  "token2bucket roundLog2 tokens limit =
     (let bucket = (if 0 < tokens then roundLog2 tokens else 0)
      in if limit \<le> bucket then limit - 1 else bucket)"

definition bucket2idx :: "SimpleOutputPredictor \<Rightarrow> int \<Rightarrow> int \<Rightarrow> int" where
  "bucket2idx p inputBucket outputBucket = inputBucket * outputBuckets p + outputBucket"

subsection \<open>Interval slices\<close>

function reset_loop ::
  "outputDistribution \<Rightarrow> outputDistribution \<Rightarrow> int32 list \<Rightarrow> int \<Rightarrow> int \<Rightarrow> int \<Rightarrow> nat
     \<Rightarrow> go_panic + (outputDistribution \<times> outputDistribution \<times> int32 list \<times> nat)" where
  "reset_loop hist distributions rowSums outBuckets inputBucket leftOutputBucket i =
     (if int i < int (length hist) - 1 then
        (case add_at rowSums inputBucket (- (hist ! i)) of
           Inl e \<Rightarrow> Inl e
         | Inr rowSums' \<Rightarrow>
             (case add_at distributions (int i) (- (hist ! i)) of
                Inl e \<Rightarrow> Inl e
              | Inr distributions' \<Rightarrow>
                  (if leftOutputBucket - 1 = 0
                   then reset_loop (hist[i := 0]) distributions' rowSums' outBuckets
                          (inputBucket + 1) outBuckets (i + 1)
                   else reset_loop (hist[i := 0]) distributions' rowSums' outBuckets
                          inputBucket (leftOutputBucket - 1) (i + 1))))
      else Inr (hist, distributions, rowSums, i))"
  by pat_completeness auto
termination
  by (relation "measure (\<lambda>(hist, distributions, rowSums, outBuckets, inputBucket, left, i).
        length hist - i)") auto

declare reset_loop.simps [simp del]

definition reset ::
  "outputDistribution \<Rightarrow> outputDistribution \<Rightarrow> int32 list \<Rightarrow> int
     \<Rightarrow> go_panic + (outputDistribution \<times> outputDistribution \<times> int32 list)" where
  "reset hist distributions rowSums outBuckets =
     (case reset_loop hist distributions rowSums outBuckets 0 outBuckets 0 of
        Inl e \<Rightarrow> Inl e
      | Inr (hist', distributions', rowSums', i) \<Rightarrow>
          (case put_at hist' (int i) 0 of
             Inl e \<Rightarrow> Inl e
           | Inr hist'' \<Rightarrow> Inr (hist'', distributions', rowSums')))"

definition setSkipped :: "outputDistribution \<Rightarrow> int32 \<Rightarrow> go_panic + outputDistribution" where
  "setSkipped hist skipped = put_at hist (int (length hist) - 1) skipped"

definition getSkipped :: "outputDistribution \<Rightarrow> go_panic + int32" where
  "getSkipped hist = get_at hist (int (length hist) - 1)"

subsection \<open>Rotating history\<close>

definition Tail :: "rotatingHistory \<Rightarrow> go_panic + outputDistribution" where
  "Tail hist = get_at (window hist) (int (tail hist))"

definition Head :: "rotatingHistory \<Rightarrow> go_panic + outputDistribution" where
  "Head hist = get_at (window hist) (int (head hist))"

definition Size :: "rotatingHistory \<Rightarrow> int32" where
  "Size hist = size32 hist"

function forward_loop :: "Time \<Rightarrow> Time \<Rightarrow> int32 \<Rightarrow> int32 \<times> Time" where
  "forward_loop ts newHeadTimestamp forwarded =
     (if MovingInterval \<le> Sub ts newHeadTimestamp
      then forward_loop ts (newHeadTimestamp + MovingInterval) (forwarded + 1)
      else (forwarded, newHeadTimestamp))"
  by pat_completeness auto
termination
  by (relation "measure (\<lambda>(ts, newHeadTimestamp, forwarded). nat (ts - newHeadTimestamp))")
    (auto simp: Sub_def MovingInterval_def maxDuration_def minDuration_def Let_def
          split: if_splits)

declare forward_loop.simps [simp del]

definition forwardLocked :: "Time \<Rightarrow> rotatingHistory \<Rightarrow> go_panic + (int32 \<times> rotatingHistory)" where
  "forwardLocked ts hist =
     (if Sub ts (headTimestamp hist) < MovingInterval then Inr (0, hist)
      else
        (case forward_loop ts (headTimestamp hist) 0 of
           (forwarded, newHeadTimestamp) \<Rightarrow>
             if length (window hist) = 0 then Inl DivideByZero
             else
               (case setSkipped (window hist ! ((head hist + 1) mod length (window hist)))
                       forwarded of
                  Inl e \<Rightarrow> Inl e
                | Inr vec \<Rightarrow>
                    Inr (forwarded,
                         hist\<lparr>window := (window hist)[(head hist + 1) mod length (window hist)
                                          := vec],
                              head := (head hist + 1) mod length (window hist),
                              headTimestamp := newHeadTimestamp,
                              size32 := size32 hist + forwarded\<rparr>))))"

definition resetTail ::
  "rotatingHistory \<Rightarrow> outputDistribution \<Rightarrow> int32 list \<Rightarrow> int
     \<Rightarrow> go_panic + (rotatingHistory \<times> outputDistribution \<times> int32 list)" where
  "resetTail hist distributions rowSums outBuckets =
     (case Tail hist of
        Inl e \<Rightarrow> Inl e
      | Inr t \<Rightarrow>
          (case reset t distributions rowSums outBuckets of
             Inl e \<Rightarrow> Inl e
           | Inr (t', distributions', rowSums') \<Rightarrow>
               if length (window hist) = 0 then Inl DivideByZero
               else
                 (case getSkipped ((window hist)[tail hist := t']
                                     ! ((tail hist + 1) mod length (window hist))) of
                    Inl e \<Rightarrow> Inl e
                  | Inr skipped \<Rightarrow>
                      Inr (hist\<lparr>window := (window hist)[tail hist := t'],
                                tail := (tail hist + 1) mod length (window hist),
                                size32 := size32 hist - skipped\<rparr>,
                           distributions', rowSums'))))"

subsection \<open>The predictor\<close>

definition NewSimpleOutputPredictor ::
  "(int \<Rightarrow> int) \<Rightarrow> int \<Rightarrow> int \<Rightarrow> int \<Rightarrow> Duration \<Rightarrow> Time
     \<Rightarrow> go_panic + SimpleOutputPredictor" where
  "NewSimpleOutputPredictor ceilLog2 maxLen maxInputTokens maxOutputTokens windowDuration now =
     (let extraSlot = (if 0 < go_rem windowDuration MovingInterval then 2 else 1);
          inputBuckets' = ceilLog2 (i64 (maxInputTokens + 1));
          outputBuckets' = ceilLog2 (i64 (maxOutputTokens + 1));
          slots = i64 (go_quot windowDuration MovingInterval + extraSlot)
      in if slots < 0 \<or> maxLen < slots then Inl MakeSliceLen
         else
           (case make_int32 maxLen (i64 (inputBuckets' * outputBuckets')) of
              Inl e \<Rightarrow> Inl e
            | Inr inputs' \<Rightarrow>
                (case make_int32 maxLen inputBuckets' of
                   Inl e \<Rightarrow> Inl e
                 | Inr rowSums' \<Rightarrow>
                     (case (if slots = 0 then Inr []
                            else (case make_int32 maxLen
                                         (i64 (i64 (inputBuckets' * outputBuckets') + 1)) of
                                    Inl e \<Rightarrow> Inl e
                                  | Inr vec \<Rightarrow> Inr (replicate (nat slots) vec))) of
                        Inl e \<Rightarrow> Inl e
                      | Inr window' \<Rightarrow>
                          Inr \<lparr>history = \<lparr>window = window', head = 0, tail = 0,
                                            headTimestamp = now, size32 = 0\<rparr>,
                               inputs = inputs', inputsSums = rowSums',
                               inputBuckets = inputBuckets',
                               outputBuckets = outputBuckets'\<rparr>))))"

partial_function (option) rotate_loop ::
  "int32 \<Rightarrow> SimpleOutputPredictor \<Rightarrow> (go_panic + SimpleOutputPredictor) option" where
  "rotate_loop window32 p =
     (if sint window32 \<le> sint (Size (history p)) then
        (case resetTail (history p) (inputs p) (inputsSums p) (outputBuckets p) of
           Inl e \<Rightarrow> Some (Inl e)
         | Inr (hist', distributions', rowSums') \<Rightarrow>
             rotate_loop window32
               (p\<lparr>history := hist', inputs := distributions', inputsSums := rowSums'\<rparr>))
      else Some (Inr p))"

declare rotate_loop.simps [code]

definition rotate_p ::
  "Time \<Rightarrow> SimpleOutputPredictor \<Rightarrow> (go_panic + bool \<times> SimpleOutputPredictor) option" where
  "rotate_p ts p =
     (let window32 = (word_of_int (int (length (window (history p))) - 1) :: int32)
      in if sint window32 < sint (Size (history p)) then Some (Inr (False, p))
         else
           (case forwardLocked ts (history p) of
              Inl e \<Rightarrow> Some (Inl e)
            | Inr (forwarded, hist') \<Rightarrow>
                if forwarded = 0 then Some (Inr (True, p\<lparr>history := hist'\<rparr>))
                else
                  (case rotate_loop window32 (p\<lparr>history := hist'\<rparr>) of
                     None \<Rightarrow> None
                   | Some (Inl e) \<Rightarrow> Some (Inl e)
                   | Some (Inr p') \<Rightarrow> Some (Inr (True, p')))))"

definition tryRotate ::
  "Time \<Rightarrow> SimpleOutputPredictor \<Rightarrow> (go_panic + SimpleOutputPredictor) option" where
  "tryRotate ts p =
     (if Sub ts (headTimestamp (history p)) < MovingInterval then Some (Inr p)
      else
        (case rotate_p ts p of
           None \<Rightarrow> None
         | Some (Inl e) \<Rightarrow> Some (Inl e)
         | Some (Inr (ok, p')) \<Rightarrow> Some (Inr p')))"

definition AddTraceWithTimestamp ::
  "(int \<Rightarrow> int) \<Rightarrow> int \<Rightarrow> int \<Rightarrow> int32 \<Rightarrow> Time \<Rightarrow> SimpleOutputPredictor
     \<Rightarrow> (go_panic + SimpleOutputPredictor) option" where
  "AddTraceWithTimestamp roundLog2 inputTokens outputTokens cnt ts p =
     (case tryRotate ts p of
        None \<Rightarrow> None
      | Some (Inl e) \<Rightarrow> Some (Inl e)
      | Some (Inr p1) \<Rightarrow>
          (let inputBucket = token2bucket roundLog2 inputTokens (inputBuckets p1);
               idx = bucket2idx p1 inputBucket
                       (token2bucket roundLog2 outputTokens (outputBuckets p1))
           in Some
             (case add_at (inputs p1) idx cnt of
                Inl e \<Rightarrow> Inl e
              | Inr inputs' \<Rightarrow>
                  (case add_at (inputsSums p1) inputBucket cnt of
                     Inl e \<Rightarrow> Inl e
                   | Inr rowSums' \<Rightarrow>
                       (case Head (history p1) of
                          Inl e \<Rightarrow> Inl e
                        | Inr vec \<Rightarrow>
                            (case add_at vec idx cnt of
                               Inl e \<Rightarrow> Inl e
                             | Inr vec' \<Rightarrow>
                                 Inr (p1\<lparr>history := (history p1)
                                            \<lparr>window := (window (history p1))
                                               [head (history p1) := vec']\<rparr>,
                                          inputs := inputs',
                                          inputsSums := rowSums'\<rparr>
                                     )))))))"


text \<open>
  \<open>coldPredict\<close> switches on the constant \<open>DefaultColdPrediction\<close>; \<open>intn\<close> stands for
  the global \<open>rand.Intn\<close>.
\<close>

definition coldPredict :: "(int \<Rightarrow> int) \<Rightarrow> int \<Rightarrow> int" where
  "coldPredict intn inputTokens =
     (case DefaultColdPrediction of
        RandomColdPredition \<Rightarrow> intn MaxOutputLen + 1
      | InputColdPrediction \<Rightarrow> inputTokens
      | PessimiticColdPrediction \<Rightarrow> MaxOutputLen
      | OptimisticColdPrediction \<Rightarrow> 1)"

function predict_loop ::
  "outputDistribution \<Rightarrow> int32 \<Rightarrow> int \<Rightarrow> int \<Rightarrow> int \<Rightarrow> int32 \<Rightarrow> go_panic + int" where
  "predict_loop distributions cursor scanRange outBuckets i accumulation =
     (if i < scanRange then
        (case get_at distributions i of
           Inl e \<Rightarrow> Inl e
         | Inr v \<Rightarrow>
             if sint cursor < sint (accumulation + v)
             then Inr (pow2 (i - scanRange + outBuckets))
             else predict_loop distributions cursor scanRange outBuckets (i + 1)
                    (accumulation + v))
      else Inr (pow2 (outBuckets - 1)))"
  by pat_completeness auto
termination
  by (relation "measure (\<lambda>(distributions, cursor, scanRange, outBuckets, i, accumulation).
        nat (scanRange - i))") auto

declare predict_loop.simps [simp del]

text \<open>
  \<open>Predict\<close> returns its result together with the predictor it leaves behind, like every
  other method of the embedding. The random source may panic: the default one,
  \<open>rand.Int31n\<close>, does on an argument that is not positive (\<open>Int31n\<close> below).
\<close>

definition Predict ::
  "(int32 \<Rightarrow> go_panic + int32) \<Rightarrow> (int \<Rightarrow> int) \<Rightarrow> (int \<Rightarrow> int) \<Rightarrow> int
     \<Rightarrow> SimpleOutputPredictor \<Rightarrow> (go_panic + int) \<times> SimpleOutputPredictor" where
  "Predict rand intn roundLog2 inputTokens p =
     (let inputBucket = token2bucket roundLog2 inputTokens (inputBuckets p)
      in (case get_at (inputsSums p) inputBucket of
            Inl e \<Rightarrow> (Inl e, p)
          | Inr randRange \<Rightarrow>
              if randRange = 0 then (Inr (coldPredict intn inputTokens), p)
              else
                (case rand randRange of
                   Inl e \<Rightarrow> (Inl e, p)
                 | Inr cursor \<Rightarrow>
                     (let scanRange = (inputBucket + 1) * outputBuckets p
                      in (predict_loop (inputs p) cursor scanRange (outputBuckets p)
                            (scanRange - outputBuckets p) 0, p)))))"

text \<open>\<open>rand.Int31n\<close> over a source \<open>draw\<close> of values in \<open>[0, n)\<close>.\<close>

definition Int31n :: "(int32 \<Rightarrow> int32) \<Rightarrow> int32 \<Rightarrow> go_panic + int32" where
  "Int31n draw n = (if sint n \<le> 0 then Inl InvalidArgument else Inr (draw n))"

subsection \<open>Sequential runs\<close>

datatype op = AddTraceOp int int int32 Time | RotateOp Time

fun op_ts :: "op \<Rightarrow> Time" where
  "op_ts (AddTraceOp inputTokens outputTokens cnt ts) = ts"
| "op_ts (RotateOp ts) = ts"

fun step ::
  "(int \<Rightarrow> int) \<Rightarrow> op \<Rightarrow> SimpleOutputPredictor \<Rightarrow> (go_panic + SimpleOutputPredictor) option" where
  "step roundLog2 (AddTraceOp inputTokens outputTokens cnt ts) p =
     AddTraceWithTimestamp roundLog2 inputTokens outputTokens cnt ts p"
| "step roundLog2 (RotateOp ts) p =
     (case rotate_p ts p of
        None \<Rightarrow> None
      | Some (Inl e) \<Rightarrow> Some (Inl e)
      | Some (Inr (ok, p')) \<Rightarrow> Some (Inr p'))"

fun run ::
  "(int \<Rightarrow> int) \<Rightarrow> op list \<Rightarrow> SimpleOutputPredictor
     \<Rightarrow> (go_panic + SimpleOutputPredictor) option" where
  "run roundLog2 [] p = Some (Inr p)"
| "run roundLog2 (x # xs) p =
     (case step roundLog2 x p of
        None \<Rightarrow> None
      | Some (Inl e) \<Rightarrow> Some (Inl e)
      | Some (Inr p') \<Rightarrow> run roundLog2 xs p')"

subsection \<open>Live slices, row sums and the invariants of the ring\<close>

text \<open>
  The live slices are the ring positions from \<open>tail\<close> up to \<open>head\<close>, both included,
  walking forward modulo the ring length; \<open>live_count\<close> is the number of positions after
  the tail.
\<close>

definition ring_pos :: "rotatingHistory \<Rightarrow> nat \<Rightarrow> nat" where
  "ring_pos hist k = (tail hist + k) mod length (window hist)"

definition live_count :: "rotatingHistory \<Rightarrow> nat" where
  "live_count hist = (head hist + length (window hist) - tail hist) mod length (window hist)"

definition slot :: "rotatingHistory \<Rightarrow> nat \<Rightarrow> outputDistribution" where
  "slot hist k = window hist ! ring_pos hist k"

definition live_slices :: "rotatingHistory \<Rightarrow> outputDistribution list" where
  "live_slices hist = map (slot hist) [0 ..< Suc (live_count hist)]"

definition skip_of :: "outputDistribution \<Rightarrow> int" where
  "skip_of vec = sint (vec ! (length vec - 1))"

definition cells :: "SimpleOutputPredictor \<Rightarrow> nat" where
  "cells p = nat (inputBuckets p * outputBuckets p)"

definition rowsum :: "int32 list \<Rightarrow> nat \<Rightarrow> nat \<Rightarrow> int32" where
  "rowsum vec m r = (\<Sum>j<m. vec ! (r * m + j))"

text \<open>A ring on which \<open>forwardLocked\<close> does not panic.\<close>

definition ring_ok :: "rotatingHistory \<Rightarrow> bool" where
  "ring_ok hist \<longleftrightarrow>
     window hist \<noteq> [] \<and> head hist < length (window hist) \<and> [] \<notin> set (window hist)"

text \<open>
  \<open>shape\<close>: the vectors have the lengths the constructor gave them, the cursors are ring
  positions, and every row sum is the sum of its row of the summary.
\<close>

definition shape :: "SimpleOutputPredictor \<Rightarrow> bool" where
  "shape p \<longleftrightarrow>
     1 \<le> inputBuckets p \<and> 1 \<le> outputBuckets p \<and>
     length (inputs p) = cells p \<and>
     length (inputsSums p) = nat (inputBuckets p) \<and>
     window (history p) \<noteq> [] \<and>
     (\<forall>vec \<in> set (window (history p)). length vec = Suc (cells p)) \<and>
     head (history p) < length (window (history p)) \<and>
     tail (history p) < length (window (history p)) \<and>
     (\<forall>r < nat (inputBuckets p).
        inputsSums p ! r = rowsum (inputs p) (nat (outputBuckets p)) r)"

text \<open>
  \<open>ring_inv\<close>: what holds of the ring between the steps of a rotation. The slices after
  the tail carry positive skip counts that add up to \<open>size\<close>, the slots outside the live
  range are zero, and each summary cell is the sum of that cell over the live slices.
  \<open>wf\<close> adds what holds between calls: \<open>size\<close> is below the read window.
\<close>

definition ring_inv :: "SimpleOutputPredictor \<Rightarrow> bool" where
  "ring_inv p \<longleftrightarrow>
     shape p \<and>
     2 \<le> length (window (history p)) \<and>
     length (window (history p)) < 2 ^ 30 \<and>
     (\<forall>k \<in> {1 .. live_count (history p)}. 1 \<le> skip_of (slot (history p) k)) \<and>
     sint (size32 (history p))
       = (\<Sum>k = 1 .. live_count (history p). skip_of (slot (history p) k)) \<and>
     (\<forall>k \<in> {Suc (live_count (history p)) ..< length (window (history p))}.
        slot (history p) k = replicate (Suc (cells p)) 0) \<and>
     (\<forall>c < cells p.
        inputs p ! c = (\<Sum>k \<le> live_count (history p). slot (history p) k ! c))"

definition wf :: "SimpleOutputPredictor \<Rightarrow> bool" where
  "wf p \<longleftrightarrow>
     ring_inv p \<and> sint (size32 (history p)) \<le> int (length (window (history p))) - 2"

text \<open>The ring length the constructor computes from a non-negative window.\<close>

definition slots_of :: "Duration \<Rightarrow> nat" where
  "slots_of w = nat (w div MovingInterval + (if 0 < w mod MovingInterval then 2 else 1))"

subsection \<open>Fixed arguments of the examples\<close>

text \<open>
  The examples need values for the library arguments. \<open>round_log2\<close> and \<open>ceil_log2\<close>
  are the exact rounded and rounded-up base-2 logarithms, computed on integers: the
  nearest integer to \<open>log2 n\<close> is the \<open>k\<close> with \<open>2^(2k-1) \<le> n\<^sup>2 < 2^(2k+1)\<close>, half
  the bit length of \<open>n\<^sup>2\<close>, and the least \<open>k\<close> with \<open>x \<le> 2^k\<close> is the bit length of
  \<open>x - 1\<close>. They are not the program's functions: the float64 expressions of the
  source differ from them on some large arguments (for instance at \<open>2^53 + 1\<close>, which
  float64 rounds to \<open>2^53\<close>). The examples apply them only to 1, 2, 200, 1025 and
  1000000, where the logarithm is an integer or far from the rounding boundary.
  \<open>rand_zero\<close> is \<open>rand.Int31n\<close> over a source that always draws 0 (the only value
  \<open>rand.Int31n 1\<close> can draw); \<open>intn_zero\<close> likewise for \<open>rand.Intn\<close>.
\<close>

definition round_log2 :: "int \<Rightarrow> int" where
  "round_log2 n = bitlen (n * n) div 2"

definition ceil_log2 :: "int \<Rightarrow> int" where
  "ceil_log2 x = bitlen (x - 1)"

definition draw_zero :: "int32 \<Rightarrow> int32" where
  "draw_zero n = 0"

definition rand_zero :: "int32 \<Rightarrow> go_panic + int32" where
  "rand_zero = Int31n draw_zero"

definition intn_zero :: "int \<Rightarrow> int" where
  "intn_zero n = 0"

definition frame :: "SimpleOutputPredictor \<Rightarrow> SimpleOutputPredictor \<Rightarrow> bool" where
  "frame p p' \<longleftrightarrow>
     headTimestamp (history p') = headTimestamp (history p) \<and>
     length (window (history p')) = length (window (history p)) \<and>
     head (history p') = head (history p) \<and>
     inputBuckets p' = inputBuckets p \<and> outputBuckets p' = outputBuckets p"

text \<open>
  The predictor \<open>NewSimpleOutputPredictor\<close> returns when it has computed \<open>n\<close> input and
  \<open>m\<close> output buckets for a window \<open>w\<close> that is not negative (lemma \<open>New_Inr\<close>).
\<close>

definition fresh :: "int \<Rightarrow> int \<Rightarrow> Duration \<Rightarrow> Time \<Rightarrow> SimpleOutputPredictor" where
  "fresh n m w now =
     \<lparr>history = \<lparr>window = replicate (slots_of w) (replicate (Suc (nat (n * m))) 0),
                  head = 0, tail = 0, headTimestamp = now, size32 = 0\<rparr>,
      inputs = replicate (nat (n * m)) 0, inputsSums = replicate (nat n) 0,
      inputBuckets = n, outputBuckets = m\<rparr>"

section \<open>Properties\<close>

subsection \<open>Bucketizer\<close>

text \<open>
  The example functions \<open>round_log2\<close> and \<open>ceil_log2\<close> are the rounded and the
  rounded-up real logarithm.
\<close>

lemma round_log2_real:
  assumes "1 \<le> n"
  shows "round_log2 n = round (log 2 (real_of_int n))"
proof -
  define x where "x = log 2 (real_of_int n)"
  have pos: "0 < n * n" using assms by simp
  have "log 2 (real_of_int (n * n)) = 2 * x"
    using assms by (simp add: x_def log_mult)
  then have bl: "bitlen (n * n) = \<lfloor>2 * x\<rfloor> + 1"
    using pos by (simp add: bitlen_alt_def)
  have "(\<lfloor>2 * x\<rfloor> + 1) div 2 = \<lfloor>x + 1 / 2\<rfloor>"
  proof -
    define k where "k = \<lfloor>x + 1 / 2\<rfloor>"
    have "real_of_int k \<le> x + 1 / 2" "x + 1 / 2 < real_of_int k + 1"
      unfolding k_def by linarith+
    then have "real_of_int (2 * k - 1) \<le> 2 * x" "2 * x < real_of_int (2 * k + 1)"
      by simp_all
    then have "2 * k - 1 \<le> \<lfloor>2 * x\<rfloor>" "\<lfloor>2 * x\<rfloor> < 2 * k + 1"
      by (simp_all only: le_floor_iff floor_less_iff)
    then have "(\<lfloor>2 * x\<rfloor> + 1) div 2 = k" by linarith
    then show ?thesis by (simp add: k_def)
  qed
  then show ?thesis
    by (simp add: round_log2_def bl round_def x_def)
qed

lemma ceil_log2_real:
  assumes "1 \<le> x"
  shows "ceil_log2 x = \<lceil>log 2 (real_of_int x)\<rceil>"
proof (cases "x = 1")
  case True
  then show ?thesis by (simp add: ceil_log2_def)
next
  case False
  with assms have x2: "0 < x - 1" by simp
  define k where "k = bitlen (x - 1)"
  have k1: "1 \<le> k" using x2 by (simp add: k_def bitlen_alt_def)
  from bitlen_bounds [OF x2] have b: "2 ^ nat (k - 1) \<le> x - 1" "x - 1 < 2 ^ nat k"
    by (simp_all add: k_def)
  have lo: "2 ^ nat (k - 1) < x" using b(1) by linarith
  have hi: "x \<le> 2 ^ nat k" using b(2) by linarith
  have "real_of_int (k - 1) < log 2 (real_of_int x)"
  proof -
    have "(2::real) ^ nat (k - 1) < real_of_int x"
      using lo by (metis of_int_less_iff of_int_numeral of_int_power)
    then have "log 2 ((2::real) ^ nat (k - 1)) < log 2 (real_of_int x)"
      using assms by (subst log_less_cancel_iff) simp_all
    then show ?thesis using k1 by (simp add: log_nat_power)
  qed
  moreover have "log 2 (real_of_int x) \<le> real_of_int k"
  proof -
    have "real_of_int x \<le> (2::real) ^ nat k"
      using hi by (metis of_int_le_iff of_int_numeral of_int_power)
    then have "log 2 (real_of_int x) \<le> log 2 ((2::real) ^ nat k)"
      using assms by (subst log_le_cancel_iff) simp_all
    then show ?thesis using k1 by (simp add: log_nat_power)
  qed
  ultimately have "\<lceil>log 2 (real_of_int x)\<rceil> = k"
    by (intro ceiling_unique) simp_all
  then show ?thesis by (simp add: ceil_log2_def k_def)
qed

lemma round_log2_nonneg: "0 \<le> round_log2 n"
  using bitlen_nonneg [of "n * n"] by (simp add: round_log2_def)



lemma token2bucket_less: "token2bucket roundLog2 n limit < limit"
  by (simp add: token2bucket_def Let_def)

lemma token2bucket_nonneg:
  assumes "1 \<le> limit" "\<forall>a. 1 \<le> a \<longrightarrow> 0 \<le> roundLog2 a"
  shows "0 \<le> token2bucket roundLog2 n limit"
  using assms by (simp add: token2bucket_def Let_def)


lemma token2bucket_eval:
  "token2bucket round_log2 1000000 11 = 10" "token2bucket round_log2 400 11 = 9"
  "token2bucket round_log2 3 11 = 2" "token2bucket round_log2 0 11 = 0"
  "token2bucket round_log2 100 11 = 7" "token2bucket round_log2 1 1 = 0"
  "token2bucket round_log2 200 1 = 0"
  by (simp_all add: token2bucket_def round_log2_def compute_bitlen)



subsection \<open>Time and the forward loop\<close>

lemma Sub_less_interval: "Sub t u < MovingInterval \<longleftrightarrow> t - u < MovingInterval"
  by (simp add: Sub_def Let_def maxDuration_def minDuration_def MovingInterval_def)

lemma MovingInterval_pos: "0 < MovingInterval"
  by (simp add: MovingInterval_def)

text \<open>The loop of \<open>forwardLocked\<close> counts the whole intervals up to \<open>ts\<close>, in \<open>int32\<close>.\<close>

lemma forward_loop_eq:
  "forward_loop ts nh fwd =
     (if MovingInterval \<le> ts - nh
      then (fwd + word_of_int ((ts - nh) div MovingInterval),
            nh + ((ts - nh) div MovingInterval) * MovingInterval)
      else (fwd, nh))"
proof (induction ts nh fwd rule: forward_loop.induct)
  case (1 ts nh fwd)
  show ?case
  proof (cases "MovingInterval \<le> ts - nh")
    case False
    then have "\<not> MovingInterval \<le> Sub ts nh"
      using Sub_less_interval [of ts nh] by simp
    then show ?thesis using False by (subst forward_loop.simps) simp
  next
    case True
    then have c: "MovingInterval \<le> Sub ts nh"
      using Sub_less_interval [of ts nh] by simp
    have d: "(ts - nh) div MovingInterval = (ts - (nh + MovingInterval)) div MovingInterval + 1"
      using MovingInterval_pos
      by (metis add.commute diff_diff_eq div_add_self2 less_irrefl diff_add_cancel)
    show ?thesis
    proof (cases "MovingInterval \<le> ts - (nh + MovingInterval)")
      case True
      then show ?thesis
        using c d "1.IH" [OF c] \<open>MovingInterval \<le> ts - nh\<close>
        by (subst forward_loop.simps) (simp add: algebra_simps)
    next
      case False
      then have "(ts - (nh + MovingInterval)) div MovingInterval = 0"
        using True MovingInterval_pos by (simp add: div_pos_pos_trivial)
      then show ?thesis
        using c d "1.IH" [OF c] False \<open>MovingInterval \<le> ts - nh\<close>
        by (subst forward_loop.simps) simp
    qed
  qed
qed

subsection \<open>forwardLocked\<close>

lemma conj_hist: "ring_ok hist \<Longrightarrow> length (window hist ! ((head hist + 1) mod length (window hist))) \<noteq> 0"
  by (auto simp: ring_ok_def in_set_conv_nth)

lemma sint_word_of_int_id:
  "- (2 ^ 31) \<le> k \<Longrightarrow> k < 2 ^ 31 \<Longrightarrow> sint (word_of_int k :: int32) = k"
  by (simp add: sint_sbintrunc' signed_take_bit_int_eq_self)

lemma forwardLocked_idle:
  "ts - headTimestamp hist < MovingInterval \<Longrightarrow> forwardLocked ts hist = Inr (0, hist)"
  by (simp add: forwardLocked_def Sub_less_interval)

lemma forwardLocked_moves:
  assumes "ring_ok hist" "MovingInterval \<le> ts - headTimestamp hist"
  shows "forwardLocked ts hist =
     Inr (word_of_int ((ts - headTimestamp hist) div MovingInterval),
          hist\<lparr>window := (window hist)[(head hist + 1) mod length (window hist)
                    := (window hist ! ((head hist + 1) mod length (window hist)))
                         [length (window hist ! ((head hist + 1) mod length (window hist))) - 1
                            := word_of_int ((ts - headTimestamp hist) div MovingInterval)]],
               head := (head hist + 1) mod length (window hist),
               headTimestamp := headTimestamp hist
                  + ((ts - headTimestamp hist) div MovingInterval) * MovingInterval,
               size32 := size32 hist + word_of_int ((ts - headTimestamp hist) div MovingInterval)\<rparr>)"
proof -
  define k where "k = (ts - headTimestamp hist) div MovingInterval"
  define h' where "h' = (head hist + 1) mod length (window hist)"
  have a: "\<not> Sub ts (headTimestamp hist) < MovingInterval"
    using assms(2) by (simp add: Sub_less_interval)
  have b: "length (window hist) \<noteq> 0" using assms(1) by (simp add: ring_ok_def)
  have c: "length (window hist ! h') \<noteq> 0"
    using conj_hist [OF assms(1)] by (simp add: h'_def)
  have fl: "forward_loop ts (headTimestamp hist) 0 = (word_of_int k, headTimestamp hist + k * MovingInterval)"
    using assms(2) by (simp add: forward_loop_eq k_def)
  have sk: "setSkipped (window hist ! h') (word_of_int k)
      = Inr ((window hist ! h')[length (window hist ! h') - 1 := word_of_int k])"
    using c by (simp add: setSkipped_def put_at_def nat_diff_distrib nat_minus_as_int)
  show ?thesis
    unfolding forwardLocked_def k_def [symmetric] h'_def [symmetric]
    by (simp only: a if_False fl prod.case b sk sum.case)
qed

text \<open>
  C2, as amended. When \<open>ts - headTimestamp < interval\<close>, \<open>forwardLocked\<close> returns 0 and
  leaves the history unchanged. Otherwise, on a ring with at least one slot and no empty
  slice, and when the number \<open>(ts - headTimestamp) div interval\<close> of elapsed intervals is
  below \<open>2^31\<close>, it returns that number, advances \<open>head\<close> by one ring position, advances
  \<open>headTimestamp\<close> by that many intervals, stores the number in the skip slot of the new
  head, adds it to \<open>size\<close>, and changes nothing else.
\<close>

theorem forwardLocked_spec:
  assumes "ring_ok hist"
  shows "(ts - headTimestamp hist < MovingInterval \<longrightarrow> forwardLocked ts hist = Inr (0, hist)) \<and>
    (MovingInterval \<le> ts - headTimestamp hist \<and>
     (ts - headTimestamp hist) div MovingInterval < 2 ^ 31 \<longrightarrow>
       (\<exists>forwarded hist'.
          forwardLocked ts hist = Inr (forwarded, hist') \<and>
          sint forwarded = (ts - headTimestamp hist) div MovingInterval \<and>
          head hist' = (head hist + 1) mod length (window hist) \<and>
          headTimestamp hist' = headTimestamp hist + sint forwarded * MovingInterval \<and>
          length (window hist') = length (window hist) \<and>
          skip_of (window hist' ! head hist') = sint forwarded \<and>
          size32 hist' = size32 hist + forwarded \<and>
          tail hist' = tail hist \<and>
          (\<forall>q < length (window hist). q \<noteq> head hist' \<longrightarrow> window hist' ! q = window hist ! q) \<and>
          (\<forall>c. c + 1 < length (window hist ! head hist') \<longrightarrow>
             window hist' ! head hist' ! c = window hist ! head hist' ! c)))"
proof (intro conjI impI)
  assume "ts - headTimestamp hist < MovingInterval"
  then show "forwardLocked ts hist = Inr (0, hist)" by (rule forwardLocked_idle)
next
  assume a: "MovingInterval \<le> ts - headTimestamp hist \<and>
     (ts - headTimestamp hist) div MovingInterval < 2 ^ 31"
  define k where "k = (ts - headTimestamp hist) div MovingInterval"
  define h' where "h' = (head hist + 1) mod length (window hist)"
  have k0: "0 \<le> k" using a MovingInterval_pos by (simp add: k_def pos_imp_zdiv_nonneg_iff)
  have sk: "sint (word_of_int k :: int32) = k"
    using k0 a by (intro sint_word_of_int_id) (simp_all add: k_def)
  have ne: "window hist \<noteq> []" using assms by (simp add: ring_ok_def)
  then have h'_lt: "h' < length (window hist)" by (simp add: h'_def)
  have h'_alt: "Suc (head hist) mod length (window hist) = h'" by (simp add: h'_def)
  have len: "length (window hist ! h') \<noteq> 0"
    using conj_hist [OF assms] by (simp add: h'_def)
  show "\<exists>forwarded hist'.
          forwardLocked ts hist = Inr (forwarded, hist') \<and>
          sint forwarded = (ts - headTimestamp hist) div MovingInterval \<and>
          head hist' = (head hist + 1) mod length (window hist) \<and>
          headTimestamp hist' = headTimestamp hist + sint forwarded * MovingInterval \<and>
          length (window hist') = length (window hist) \<and>
          skip_of (window hist' ! head hist') = sint forwarded \<and>
          size32 hist' = size32 hist + forwarded \<and>
          tail hist' = tail hist \<and>
          (\<forall>q < length (window hist). q \<noteq> head hist' \<longrightarrow> window hist' ! q = window hist ! q) \<and>
          (\<forall>c. c + 1 < length (window hist ! head hist') \<longrightarrow>
             window hist' ! head hist' ! c = window hist ! head hist' ! c)"
    using forwardLocked_moves [OF assms conjunct1 [OF a]] sk h'_lt len
    by (simp add: k_def [symmetric] h'_alt skip_of_def nth_list_update)
qed

theorem forwardLocked_spec_witness:
  "ring_ok \<lparr>window = [[0, 0], [0, 0]], head = 0, tail = 0, headTimestamp = 0, size32 = 0\<rparr> \<and>
   forwardLocked 5000000000
     \<lparr>window = [[0, 0], [0, 0]], head = 0, tail = 0, headTimestamp = 0, size32 = 0\<rparr>
   = Inr (0, \<lparr>window = [[0, 0], [0, 0]], head = 0, tail = 0, headTimestamp = 0, size32 = 0\<rparr>) \<and>
   forwardLocked 35000000000
     \<lparr>window = [[0, 0], [0, 0]], head = 0, tail = 0, headTimestamp = 0, size32 = 0\<rparr>
   = Inr (3, \<lparr>window = [[0, 0], [0, 3]], head = 1, tail = 0, headTimestamp = 30000000000,
               size32 = 3\<rparr>)"
proof -
  have r: "ring_ok \<lparr>window = [[0, 0], [0, 0]], head = 0, tail = 0, headTimestamp = 0, size32 = 0\<rparr>"
    by (simp add: ring_ok_def)
  have e: "forwardLocked 35000000000
     \<lparr>window = [[0, 0], [0, 0]], head = 0, tail = 0, headTimestamp = 0, size32 = 0\<rparr>
   = Inr (3, \<lparr>window = [[0, 0], [0, 3]], head = 1, tail = 0, headTimestamp = 30000000000,
               size32 = 3\<rparr>)"
    by (simp add: forwardLocked_moves [OF r] MovingInterval_def)
  show ?thesis
    using r e forwardLocked_spec [OF r, of 5000000000]
    by (simp add: MovingInterval_def)
qed

text \<open>
  The count is an \<open>int32\<close> incremented once per interval: after \<open>2^31\<close> intervals it has
  wrapped to \<open>-2^31\<close>, which is neither the quotient nor what \<open>headTimestamp\<close> advanced by.
\<close>

theorem forwardLocked_wraps_counterexample:
  "forwardLocked 21474836480000000000
     \<lparr>window = [[0, 0], [0, 0]], head = 0, tail = 0, headTimestamp = 0, size32 = 0\<rparr>
   = Inr (word_of_int 2147483648,
          \<lparr>window = [[0, 0], [0, word_of_int 2147483648]], head = 1, tail = 0,
             headTimestamp = 21474836480000000000, size32 = word_of_int 2147483648\<rparr>) \<and>
   sint (word_of_int 2147483648 :: int32) = - 2147483648 \<and>
   (21474836480000000000 - 0) div MovingInterval = 2147483648"
proof -
  have r: "ring_ok \<lparr>window = [[0, 0], [0, 0]], head = 0, tail = 0, headTimestamp = 0, size32 = 0\<rparr>"
    by (simp add: ring_ok_def)
  show ?thesis
    by (simp add: forwardLocked_moves [OF r] MovingInterval_def)
qed

subsection \<open>Construction\<close>

lemma i64_id: "- (2 ^ 63) \<le> x \<Longrightarrow> x < 2 ^ 63 \<Longrightarrow> i64 x = x"
  by (simp add: i64_def signed_take_bit_int_eq_self)

lemma go_quot_nonneg: "0 \<le> a \<Longrightarrow> 0 < b \<Longrightarrow> go_quot a b = a div b"
  by (cases "a = 0") (simp_all add: go_quot_def)

lemma go_rem_nonneg: "0 \<le> a \<Longrightarrow> 0 < b \<Longrightarrow> go_rem a b = a mod b"
  by (simp add: go_rem_def go_quot_nonneg minus_mult_div_eq_mod)

lemma ceil_log2_bounds:
  assumes "1 \<le> x" "x \<le> 2 ^ 63"
  shows "0 \<le> ceil_log2 x" "ceil_log2 x \<le> 63"
proof -
  show "0 \<le> ceil_log2 x" by (simp add: ceil_log2_def bitlen_nonneg)
  have "x - 1 < 2 ^ nat 63" using assms by simp
  then show "ceil_log2 x \<le> 63"
    unfolding ceil_log2_def by (subst bitlen_le_iff_power) simp
qed

lemma ceil_log2_pos: "2 \<le> x \<Longrightarrow> 1 \<le> ceil_log2 x"
  unfolding ceil_log2_def by (subst bitlen_ge_iff_power) simp

lemma ceil_log2_eval: "ceil_log2 1 = 0" "ceil_log2 2 = 1" "ceil_log2 1025 = 11" "ceil_log2 4 = 2"
  by (simp_all add: ceil_log2_def compute_bitlen)

lemma window_div_bounds:
  assumes "0 \<le> w" "w \<le> maxDuration"
  shows "0 \<le> w div MovingInterval" "w div MovingInterval \<le> 922337203"
proof -
  show "0 \<le> w div MovingInterval"
    using assms(1) MovingInterval_pos by (simp add: pos_imp_zdiv_nonneg_iff)
  have "w div MovingInterval \<le> maxDuration div MovingInterval"
    using assms(2) MovingInterval_pos by (intro zdiv_mono1) simp_all
  also have "maxDuration div MovingInterval = 922337203"
    by (simp add: maxDuration_def MovingInterval_def)
  finally show "w div MovingInterval \<le> 922337203" .
qed

lemma NewSimpleOutputPredictor_ok:
  assumes "0 \<le> w" "w \<le> maxDuration"
    and "ceilLog2 (i64 (maxIn + 1)) = n" "ceilLog2 (i64 (maxOut + 1)) = m"
    and "0 \<le> n" "0 \<le> m" "n \<le> maxLen" "n * m < maxLen"
    and "int (slots_of w) \<le> maxLen" "maxLen < 2 ^ 63"
  shows "NewSimpleOutputPredictor ceilLog2 maxLen maxIn maxOut w now =
    Inr \<lparr>history =
           \<lparr>window = replicate (slots_of w) (replicate (Suc (nat (n * m))) 0),
            head = 0, tail = 0, headTimestamp = now, size32 = 0\<rparr>,
         inputs = replicate (nat (n * m)) 0,
         inputsSums = replicate (nat n) 0,
         inputBuckets = n, outputBuckets = m\<rparr>"
proof -
  define q where "q = w div MovingInterval + (if 0 < w mod MovingInterval then 2 else 1)"
  have nm: "0 \<le> n * m" using assms(5,6) by simp
  have b: "i64 (n * m) = n * m" "i64 (n * m + 1) = n * m + 1"
    using nm assms(8,10) by (simp_all add: i64_id)
  have q: "1 \<le> q" "q < 2 ^ 63"
    using window_div_bounds [OF assms(1,2)] by (simp_all add: q_def)
  have c: "i64 q = q" using q by (simp add: i64_id)
  have g: "go_quot w MovingInterval = w div MovingInterval"
    "go_rem w MovingInterval = w mod MovingInterval"
    using assms(1) MovingInterval_pos by (simp_all add: go_quot_nonneg go_rem_nonneg)
  have e: "(if 0 < w mod MovingInterval then 2 else 1) = q - w div MovingInterval"
    by (simp add: q_def)
  have f: "slots_of w = nat q" by (simp add: slots_of_def q_def)
  have ql: "q \<le> maxLen" using assms(9) q(1) by (simp add: f)
  have "NewSimpleOutputPredictor ceilLog2 maxLen maxIn maxOut w now =
    Inr \<lparr>history =
           \<lparr>window = replicate (nat q) (replicate (Suc (nat (n * m))) 0),
            head = 0, tail = 0, headTimestamp = now, size32 = 0\<rparr>,
         inputs = replicate (nat (n * m)) 0,
         inputsSums = replicate (nat n) 0,
         inputBuckets = n, outputBuckets = m\<rparr>"
    unfolding NewSimpleOutputPredictor_def assms(3,4) g e
    using assms(5,7,8) nm q ql by (simp add: b c make_int32_def Let_def nat_add_distrib)
  then show ?thesis by (simp add: f)
qed

text \<open>
  C6, as amended. \<open>NewSimpleOutputPredictor\<close> has no error result and checks none of
  its arguments. It returns a predictor whenever the window is between 0 and the largest
  duration, the two bucket counts the library computes from the sizes are not negative,
  and the slices it makes fit the allocator. The hypotheses name no lower bound on the
  sizes and none on the window but 0: a zero size (where the library computes 0 buckets)
  and a zero window (a ring of one slot) construct a predictor like any positive size
  and non-zero window.
\<close>

theorem NewSimpleOutputPredictor_succeeds:
  assumes "0 \<le> windowDuration" "windowDuration \<le> maxDuration"
    and "0 \<le> ceilLog2 (i64 (maxInputTokens + 1))"
    and "0 \<le> ceilLog2 (i64 (maxOutputTokens + 1))"
    and "ceilLog2 (i64 (maxInputTokens + 1)) \<le> maxLen"
    and "ceilLog2 (i64 (maxInputTokens + 1)) * ceilLog2 (i64 (maxOutputTokens + 1)) < maxLen"
    and "int (slots_of windowDuration) \<le> maxLen" "maxLen < 2 ^ 63"
  shows "\<exists>p. NewSimpleOutputPredictor ceilLog2 maxLen maxInputTokens maxOutputTokens
                windowDuration now = Inr p \<and>
    inputBuckets p = ceilLog2 (i64 (maxInputTokens + 1)) \<and>
    outputBuckets p = ceilLog2 (i64 (maxOutputTokens + 1)) \<and>
    length (inputs p) = nat (inputBuckets p * outputBuckets p) \<and>
    length (inputsSums p) = nat (inputBuckets p) \<and>
    length (window (history p)) = slots_of windowDuration \<and>
    1 \<le> slots_of windowDuration \<and>
    headTimestamp (history p) = now"
proof -
  have "1 \<le> slots_of windowDuration"
    using window_div_bounds [OF assms(1,2)] by (simp add: slots_of_def) linarith
  then show ?thesis
    using NewSimpleOutputPredictor_ok [OF assms(1,2) refl refl assms(3,4,5,6,7,8), of now]
    by simp
qed

lemma i64_eval: "i64 1 = 1" "i64 2 = 2" "i64 1025 = 1025"
  by (simp_all add: i64_def)

theorem NewSimpleOutputPredictor_succeeds_witness:
  "\<exists>p. NewSimpleOutputPredictor ceil_log2 1000000 1024 1024 60000000000 0 = Inr p \<and>
     inputBuckets p = 11 \<and> outputBuckets p = 11 \<and> length (inputs p) = 121 \<and>
     length (inputsSums p) = 11 \<and> length (window (history p)) = 7"
  using NewSimpleOutputPredictor_succeeds [of 60000000000 ceil_log2 1024 1024 1000000 0]
  by (auto simp add: maxDuration_def slots_of_def MovingInterval_def ceil_log2_eval i64_eval)

text \<open>
  With \<open>maxInputTokens = 0\<close> the constructor returns a predictor without buckets
  (\<open>math.Log2(1)\<close> is 0), and with a zero window a predictor with a ring of one slot: no
  error is raised. The library argument is \<open>ceil_log2\<close>, which at 1 and at 1025 is what
  the float64 expression gives (0, and 11 from \<open>log2 1025 = 10.0014\<close>).
\<close>

theorem NewSimpleOutputPredictor_zero_counterexample:
  "NewSimpleOutputPredictor ceil_log2 1000000 0 1024 60000000000 0 =
     Inr \<lparr>history = \<lparr>window = replicate 7 [0], head = 0, tail = 0, headTimestamp = 0,
                       size32 = 0\<rparr>,
          inputs = [], inputsSums = [], inputBuckets = 0, outputBuckets = 11\<rparr> \<and>
   NewSimpleOutputPredictor ceil_log2 1000000 1024 1024 0 0 =
     Inr \<lparr>history = \<lparr>window = [replicate 122 0], head = 0, tail = 0, headTimestamp = 0,
                       size32 = 0\<rparr>,
          inputs = replicate 121 0, inputsSums = replicate 11 0, inputBuckets = 11,
          outputBuckets = 11\<rparr>"
proof -
  have a: "NewSimpleOutputPredictor ceil_log2 1000000 0 1024 60000000000 0 =
     Inr \<lparr>history = \<lparr>window = replicate (slots_of 60000000000)
                         (replicate (Suc (nat (0 * 11))) 0),
                       head = 0, tail = 0, headTimestamp = 0, size32 = 0\<rparr>,
          inputs = replicate (nat (0 * 11)) 0, inputsSums = replicate (nat 0) 0,
          inputBuckets = 0, outputBuckets = 11\<rparr>"
    by (rule NewSimpleOutputPredictor_ok)
      (simp_all add: maxDuration_def slots_of_def MovingInterval_def ceil_log2_eval i64_eval)
  have b: "NewSimpleOutputPredictor ceil_log2 1000000 1024 1024 0 0 =
     Inr \<lparr>history = \<lparr>window = replicate (slots_of 0) (replicate (Suc (nat (11 * 11))) 0),
                       head = 0, tail = 0, headTimestamp = 0, size32 = 0\<rparr>,
          inputs = replicate (nat (11 * 11)) 0, inputsSums = replicate (nat 11) 0,
          inputBuckets = 11, outputBuckets = 11\<rparr>"
    by (rule NewSimpleOutputPredictor_ok)
      (simp_all add: maxDuration_def slots_of_def MovingInterval_def ceil_log2_eval i64_eval)
  show ?thesis
    unfolding a b by (simp add: slots_of_def MovingInterval_def)
qed

subsection \<open>Prediction\<close>

lemma coldPredict_one: "coldPredict intn inputTokens = 1"
  by (simp add: coldPredict_def DefaultColdPrediction_def)

text \<open>
  C9. \<open>coldPredict\<close> returns 1 for every input, whatever the global random source, so the
  branches of the other strategies are never taken; and \<open>Predict\<close> returns 1 whenever
  the row sum of the input's bucket is zero.
\<close>

theorem coldPredict_constant:
  "coldPredict intn inputTokens = 1 \<and>
   (get_at (inputsSums p) (token2bucket roundLog2 inputTokens (inputBuckets p)) = Inr 0 \<longrightarrow>
      Predict rand intn roundLog2 inputTokens p = (Inr 1, p))"
  by (simp add: coldPredict_one Predict_def Let_def)

theorem coldPredict_constant_witness:
  "get_at (inputsSums
      \<lparr>history = \<lparr>window = [[0, 0], [0, 0]], head = 0, tail = 0, headTimestamp = 0,
                   size32 = 0\<rparr>,
       inputs = [0], inputsSums = [0], inputBuckets = 1, outputBuckets = 1\<rparr>)
     (token2bucket round_log2 200
        (inputBuckets
          \<lparr>history = \<lparr>window = [[0, 0], [0, 0]], head = 0, tail = 0, headTimestamp = 0,
                       size32 = 0\<rparr>,
           inputs = [0], inputsSums = [0], inputBuckets = 1, outputBuckets = 1\<rparr>)) = Inr 0 \<and>
   Predict rand_zero intn_zero round_log2 200
      \<lparr>history = \<lparr>window = [[0, 0], [0, 0]], head = 0, tail = 0, headTimestamp = 0,
                   size32 = 0\<rparr>,
       inputs = [0], inputsSums = [0], inputBuckets = 1, outputBuckets = 1\<rparr>
   = (Inr 1,
      \<lparr>history = \<lparr>window = [[0, 0], [0, 0]], head = 0, tail = 0, headTimestamp = 0,
                   size32 = 0\<rparr>,
       inputs = [0], inputsSums = [0], inputBuckets = 1, outputBuckets = 1\<rparr>)"
  using coldPredict_constant [of intn_zero 200
      "\<lparr>history = \<lparr>window = [[0, 0], [0, 0]], head = 0, tail = 0, headTimestamp = 0,
                   size32 = 0\<rparr>,
       inputs = [0], inputsSums = [0], inputBuckets = 1, outputBuckets = 1\<rparr>"
      round_log2 rand_zero]
  by (simp add: token2bucket_eval get_at_def)

text \<open>
  C10. \<open>Predict\<close> only reads: the predictor it leaves behind is the predictor it was
  called on (summary, row sums, ring, cursors, head timestamp and size alike), whatever
  the input, the random sources and the library, and whether it returns a value or
  panics.
\<close>

theorem Predict_read_only:
  "snd (Predict rand intn roundLog2 inputTokens p) = p"
  by (simp add: Predict_def Let_def split: sum.split)

subsection \<open>Resetting a slice\<close>

lemma rowsum_update:
  assumes "c < length vec" "0 < m"
  shows "rowsum (vec[c := v]) m r = rowsum vec m r + (if c div m = r then v - vec ! c else 0)"
proof -
  have eq: "\<And>j. j < m \<Longrightarrow> (r * m + j = c) = (c div m = r \<and> j = c mod m)"
    using assms(2) by (auto simp: div_mult_self3)
  have "rowsum (vec[c := v]) m r
      = (\<Sum>j<m. vec ! (r * m + j) + (if r * m + j = c then v - vec ! c else 0))"
    unfolding rowsum_def using assms(1)
    by (intro sum.cong refl) (simp add: nth_list_update)
  also have "\<dots> = rowsum vec m r + (\<Sum>j<m. if r * m + j = c then v - vec ! c else 0)"
    by (simp add: rowsum_def sum.distrib)
  also have "(\<Sum>j<m. if r * m + j = c then v - vec ! c else 0)
      = (\<Sum>j<m. if c mod m = j then (if c div m = r then v - vec ! c else 0) else 0)"
    by (intro sum.cong refl) (auto simp: eq)
  also have "\<dots> = (if c div m = r then v - vec ! c else 0)"
    using assms(2) by (simp add: sum.delta)
  finally show ?thesis .
qed

lemma reset_loop_step:
  fixes n m :: nat
  assumes "length hist = Suc (n * m)" "length ds = n * m" "length rs = n" "i < n * m"
  shows "reset_loop hist ds rs (int m) (int (i div m)) (int m - int (i mod m)) i =
         reset_loop (hist[i := 0]) (ds[i := ds ! i - hist ! i])
           (rs[i div m := rs ! (i div m) - hist ! i]) (int m)
           (int (Suc i div m)) (int m - int (Suc i mod m)) (Suc i)"
proof -
  have m: "0 < m" using assms(4) by (cases m) simp_all
  have r: "i div m < n" using assms(4) by (simp add: less_mult_imp_div_less)
  have a: "add_at rs (int (i div m)) (- (hist ! i)) = Inr (rs[i div m := rs ! (i div m) - hist ! i])"
    using r assms(3) by (simp add: add_at_def)
  have b: "add_at ds (int i) (- (hist ! i)) = Inr (ds[i := ds ! i - hist ! i])"
  proof -
    have "int i < int (length ds)" using assms(2,4) by (simp only: of_nat_less_iff)
    then show ?thesis by (simp add: add_at_def)
  qed
  have ii: "int i < int n * int m"
    using assms(4) by (metis of_nat_less_iff of_nat_mult)
  have c: "int i < int (length hist) - 1" using assms(1) ii by simp
  have lt: "i mod m < m" using m by simp
  have u: "reset_loop hist ds rs (int m) (int (i div m)) (int m - int (i mod m)) i =
      (if int m - int (i mod m) - 1 = 0
       then reset_loop (hist[i := 0]) (ds[i := ds ! i - hist ! i])
              (rs[i div m := rs ! (i div m) - hist ! i]) (int m) (int (i div m) + 1) (int m) (i + 1)
       else reset_loop (hist[i := 0]) (ds[i := ds ! i - hist ! i])
              (rs[i div m := rs ! (i div m) - hist ! i]) (int m) (int (i div m))
              (int m - int (i mod m) - 1) (i + 1))"
    by (subst reset_loop.simps) (simp only: a b c if_True sum.case)
  show ?thesis
  proof (cases "Suc (i mod m) = m")
    case True
    then have d: "int m - int (i mod m) - 1 = 0" by linarith
    have e: "Suc i mod m = 0" "Suc i div m = Suc (i div m)"
      using True by (simp_all add: mod_Suc div_Suc)
    show ?thesis
      unfolding u by (simp add: d e ac_simps)
  next
    case False
    then have d: "int m - int (i mod m) - 1 \<noteq> 0" using lt by linarith
    have e: "Suc i mod m = Suc (i mod m)" "Suc i div m = i div m"
      using False by (simp_all add: mod_Suc div_Suc)
    have g: "int m - int (Suc i mod m) = int m - int (i mod m) - 1"
      using e by simp
    show ?thesis
      unfolding u g using d e(2) by simp
  qed
qed

lemma reset_loop_spec:
  fixes n m :: nat
  assumes "length hist = Suc (n * m)" "length ds = n * m" "length rs = n" "i \<le> n * m"
  shows "\<exists>hist' ds' rs'.
     reset_loop hist ds rs (int m) (int (i div m)) (int m - int (i mod m)) i
       = Inr (hist', ds', rs', n * m) \<and>
     length hist' = Suc (n * m) \<and> length ds' = n * m \<and> length rs' = n \<and>
     (\<forall>c<Suc (n * m). hist' ! c = (if i \<le> c \<and> c < n * m then 0 else hist ! c)) \<and>
     (\<forall>c<n * m. ds' ! c = (if i \<le> c then ds ! c - hist ! c else ds ! c)) \<and>
     ((\<forall>r<n. rs ! r = rowsum ds m r) \<longrightarrow> (\<forall>r<n. rs' ! r = rowsum ds' m r))"
  using assms
proof (induction "n * m - i" arbitrary: i hist ds rs)
  case 0
  then have i: "i = n * m" by simp
  have "\<not> int i < int (length hist) - 1" using 0 i by simp
  then show ?case
    using 0 i by (subst reset_loop.simps) auto
next
  case (Suc k)
  then have lt: "i < n * m" by simp
  have m: "0 < m" using lt by (cases m) simp_all
  have r: "i div m < n" using lt by (simp add: less_mult_imp_div_less)
  define hist1 where "hist1 = hist[i := 0]"
  define ds1 where "ds1 = ds[i := ds ! i - hist ! i]"
  define rs1 where "rs1 = rs[i div m := rs ! (i div m) - hist ! i]"
  have step: "reset_loop hist ds rs (int m) (int (i div m)) (int m - int (i mod m)) i =
      reset_loop hist1 ds1 rs1 (int m) (int (Suc i div m)) (int m - int (Suc i mod m)) (Suc i)"
    unfolding hist1_def ds1_def rs1_def
    by (rule reset_loop_step [OF Suc.prems(1,2,3) lt])
  have k: "k = n * m - Suc i" using Suc.hyps(2) by simp
  have len1: "length hist1 = Suc (n * m)" "length ds1 = n * m" "length rs1 = n"
    using Suc.prems by (simp_all add: hist1_def ds1_def rs1_def)
  from Suc.hyps(1) [OF k len1] lt
  obtain hist' ds' rs' where res:
    "reset_loop hist1 ds1 rs1 (int m) (int (Suc i div m)) (int m - int (Suc i mod m)) (Suc i)
       = Inr (hist', ds', rs', n * m)"
    "length hist' = Suc (n * m)" "length ds' = n * m" "length rs' = n"
    "\<forall>c<Suc (n * m). hist' ! c = (if Suc i \<le> c \<and> c < n * m then 0 else hist1 ! c)"
    "\<forall>c<n * m. ds' ! c = (if Suc i \<le> c then ds1 ! c - hist1 ! c else ds1 ! c)"
    "(\<forall>r<n. rs1 ! r = rowsum ds1 m r) \<longrightarrow> (\<forall>r<n. rs' ! r = rowsum ds' m r)"
    by auto
  have h: "\<forall>c<Suc (n * m). hist' ! c = (if i \<le> c \<and> c < n * m then 0 else hist ! c)"
  proof (intro allI impI)
    fix c assume c: "c < Suc (n * m)"
    show "hist' ! c = (if i \<le> c \<and> c < n * m then 0 else hist ! c)"
      using res(5) c lt Suc.prems(1) by (cases "c = i") (auto simp: hist1_def)
  qed
  have d: "\<forall>c<n * m. ds' ! c = (if i \<le> c then ds ! c - hist ! c else ds ! c)"
  proof (intro allI impI)
    fix c assume c: "c < n * m"
    show "ds' ! c = (if i \<le> c then ds ! c - hist ! c else ds ! c)"
      using res(6) c lt Suc.prems(1,2) by (cases "c = i") (auto simp: hist1_def ds1_def)
  qed
  have s: "(\<forall>r<n. rs ! r = rowsum ds m r) \<longrightarrow> (\<forall>r<n. rs' ! r = rowsum ds' m r)"
  proof
    assume a: "\<forall>r<n. rs ! r = rowsum ds m r"
    have "\<forall>r<n. rs1 ! r = rowsum ds1 m r"
    proof (intro allI impI)
      fix r assume rn: "r < n"
      have "rowsum ds1 m r = rowsum ds m r + (if i div m = r then (ds ! i - hist ! i) - ds ! i else 0)"
        unfolding ds1_def using lt Suc.prems(2) m by (intro rowsum_update) simp_all
      moreover have "rs1 ! r = (if i div m = r then rs ! r - hist ! i else rs ! r)"
        using rn Suc.prems(3) by (auto simp: rs1_def)
      ultimately show "rs1 ! r = rowsum ds1 m r"
        using a rn by simp
    qed
    with res(7) show "\<forall>r<n. rs' ! r = rowsum ds' m r" by blast
  qed
  show ?case
    unfolding step using res(1-4) h d s by blast
qed

lemma reset_spec:
  fixes n m :: nat
  assumes "length hist = Suc (n * m)" "length ds = n * m" "length rs = n"
  shows "\<exists>ds' rs'.
     reset hist ds rs (int m) = Inr (replicate (Suc (n * m)) 0, ds', rs') \<and>
     length ds' = n * m \<and> length rs' = n \<and>
     (\<forall>c<n * m. ds' ! c = ds ! c - hist ! c) \<and>
     ((\<forall>r<n. rs ! r = rowsum ds m r) \<longrightarrow> (\<forall>r<n. rs' ! r = rowsum ds' m r))"
proof -
  from reset_loop_spec [OF assms, of 0]
  obtain hist' ds' rs' where res:
    "reset_loop hist ds rs (int m) 0 (int m) 0 = Inr (hist', ds', rs', n * m)"
    "length hist' = Suc (n * m)" "length ds' = n * m" "length rs' = n"
    "\<forall>c<Suc (n * m). hist' ! c = (if 0 \<le> c \<and> c < n * m then 0 else hist ! c)"
    "\<forall>c<n * m. ds' ! c = (if 0 \<le> c then ds ! c - hist ! c else ds ! c)"
    "(\<forall>r<n. rs ! r = rowsum ds m r) \<longrightarrow> (\<forall>r<n. rs' ! r = rowsum ds' m r)"
    by auto
  have z: "hist'[n * m := 0] = replicate (Suc (n * m)) 0"
  proof (rule nth_equalityI)
    show "length (hist'[n * m := 0]) = length (replicate (Suc (n * m)) (0::int32))"
      using res(2) by simp
  next
    fix c assume "c < length (hist'[n * m := 0])"
    then have c: "c < Suc (n * m)" using res(2) by simp
    show "hist'[n * m := 0] ! c = replicate (Suc (n * m)) (0::int32) ! c"
    proof (cases "c = n * m")
      case True
      then show ?thesis using res(2) by (simp del: replicate_Suc)
    next
      case False
      then have "c < n * m" using c by simp
      then show ?thesis using res(5) c False by (simp del: replicate_Suc)
    qed
  qed
  have p: "put_at hist' (int (n * m)) 0 = Inr (replicate (Suc (n * m)) 0)"
    using res(2) z by (simp add: put_at_def del: of_nat_mult)
  show ?thesis
    unfolding reset_def res(1) using p res(3,4,6,7) by simp
qed

lemma shape_dims:
  assumes "shape p"
  shows "cells p = nat (inputBuckets p) * nat (outputBuckets p)"
    and "outputBuckets p = int (nat (outputBuckets p))"
    and "inputBuckets p = int (nat (inputBuckets p))"
    and "0 < nat (outputBuckets p)" and "0 < nat (inputBuckets p)"
  using assms by (simp_all add: shape_def cells_def nat_mult_distrib)

lemma shape_slot_length:
  "shape p \<Longrightarrow> q < length (window (history p)) \<Longrightarrow>
     length (window (history p) ! q) = Suc (cells p)"
  by (simp add: shape_def)

text \<open>On a well-shaped predictor \<open>resetTail\<close> does not panic; what it returns.\<close>

lemma resetTail_shape:
  assumes "shape p"
  defines "h \<equiv> history p"
  defines "L \<equiv> length (window (history p))"
  shows "\<exists>ds' rs'.
     resetTail h (inputs p) (inputsSums p) (outputBuckets p) =
       Inr (h\<lparr>window := (window h)[tail h := replicate (Suc (cells p)) 0],
              tail := Suc (tail h) mod L,
              size32 := size32 h
                 - (window h)[tail h := replicate (Suc (cells p)) 0] ! (Suc (tail h) mod L)
                     ! cells p\<rparr>, ds', rs') \<and>
     length ds' = cells p \<and> length rs' = nat (inputBuckets p) \<and>
     (\<forall>c<cells p. ds' ! c = inputs p ! c - window h ! tail h ! c) \<and>
     (\<forall>r<nat (inputBuckets p). rs' ! r = rowsum ds' (nat (outputBuckets p)) r)"
proof -
  define n where "n = nat (inputBuckets p)"
  define m where "m = nat (outputBuckets p)"
  have C: "cells p = n * m" and om: "outputBuckets p = int m"
    using shape_dims [OF assms(1)] by (simp_all add: n_def m_def)
  have tl: "tail h < L" and L: "L \<noteq> 0"
    using assms(1) by (simp_all add: shape_def h_def L_def)
  have T: "Tail h = Inr (window h ! tail h)"
    using tl by (simp add: Tail_def get_at_def L_def h_def)
  have len: "length (window h ! tail h) = Suc (n * m)"
    using shape_slot_length [OF assms(1), of "tail h"] tl C by (simp add: h_def L_def)
  have li: "length (inputs p) = n * m" "length (inputsSums p) = n"
    using assms(1) C by (simp_all add: shape_def n_def)
  have rs: "\<forall>r<n. inputsSums p ! r = rowsum (inputs p) m r"
    using assms(1) by (simp add: shape_def n_def m_def)
  from reset_spec [OF len li] rs
  obtain ds' rs' where res:
    "reset (window h ! tail h) (inputs p) (inputsSums p) (int m)
       = Inr (replicate (Suc (n * m)) 0, ds', rs')"
    "length ds' = n * m" "length rs' = n"
    "\<forall>c<n * m. ds' ! c = inputs p ! c - window h ! tail h ! c"
    "\<forall>r<n. rs' ! r = rowsum ds' m r"
    by blast
  define w' where "w' = (window h)[tail h := replicate (Suc (n * m)) 0]"
  have t': "Suc (tail h) mod L < length w'" using L by (simp add: w'_def L_def h_def)
  have sl: "length (w' ! (Suc (tail h) mod L)) = Suc (n * m)"
  proof (cases "Suc (tail h) mod L = tail h")
    case True
    then show ?thesis using tl by (simp add: w'_def L_def h_def del: replicate_Suc)
  next
    case False
    then have "w' ! (Suc (tail h) mod L) = window h ! (Suc (tail h) mod L)"
      by (simp add: w'_def)
    then show ?thesis
      using shape_slot_length [OF assms(1), of "Suc (tail h) mod L"] L C
      by (simp add: h_def L_def)
  qed
  have gs: "getSkipped (w' ! (Suc (tail h) mod L)) = Inr (w' ! (Suc (tail h) mod L) ! (n * m))"
    unfolding getSkipped_def get_at_def sl by (simp del: of_nat_mult)
  have Lh: "length (window h) = L" by (simp add: L_def h_def)
  have "resetTail h (inputs p) (inputsSums p) (outputBuckets p) =
       Inr (h\<lparr>window := w', tail := Suc (tail h) mod L,
              size32 := size32 h - w' ! (Suc (tail h) mod L) ! (n * m)\<rparr>, ds', rs')"
    unfolding resetTail_def T om
    using L by (simp add: res(1) w'_def [symmetric] Lh gs del: replicate_Suc)
  then show ?thesis
    using res(2-5) by (simp add: C w'_def n_def m_def del: replicate_Suc)
qed

subsection \<open>What a rotation leaves alone\<close>

lemma resetTail_frame:
  assumes "resetTail h ds rs m = Inr (h', ds', rs')"
  shows "headTimestamp h' = headTimestamp h \<and> length (window h') = length (window h) \<and>
         head h' = head h"
  using assms by (auto simp: resetTail_def split: sum.splits prod.splits if_splits)

lemma frame_refl: "frame p p"
  by (simp add: frame_def)

lemma frame_trans: "frame p q \<Longrightarrow> frame q r \<Longrightarrow> frame p r"
  by (simp add: frame_def)

lemma frame_resetTail:
  assumes "resetTail (history p) (inputs p) (inputsSums p) (outputBuckets p) = Inr (h', ds', rs')"
  shows "frame p (p\<lparr>history := h', inputs := ds', inputsSums := rs'\<rparr>)"
  using resetTail_frame [OF assms] by (simp add: frame_def)

lemma rotate_loop_frame:
  assumes "rotate_loop w p = Some r"
  shows "\<forall>p'. r = Inr p' \<longrightarrow> frame p p'"
proof (rule rotate_loop.raw_induct
    [where P = "\<lambda>w p r. \<forall>p'. r = Inr p' \<longrightarrow> frame p p'", OF _ assms])
  fix rl :: "int32 \<Rightarrow> SimpleOutputPredictor \<Rightarrow> (go_panic + SimpleOutputPredictor) option"
    and w :: int32 and p :: SimpleOutputPredictor and r
  assume IH: "\<And>w p r. rl w p = Some r \<Longrightarrow> \<forall>p'. r = Inr p' \<longrightarrow> frame p p'"
  assume eq: "(if sint w \<le> sint (Size (history p))
      then case resetTail (history p) (inputs p) (inputsSums p) (outputBuckets p) of
           Inl e \<Rightarrow> Some (Inl e)
         | Inr (hist', distributions', rowSums') \<Rightarrow>
             rl w (p\<lparr>history := hist', inputs := distributions', inputsSums := rowSums'\<rparr>)
      else Some (Inr p)) = Some r"
  show "\<forall>p'. r = Inr p' \<longrightarrow> frame p p'"
  proof (cases "sint w \<le> sint (Size (history p))")
    case False
    with eq show ?thesis by (auto simp: frame_refl)
  next
    case True
    show ?thesis
    proof (cases "resetTail (history p) (inputs p) (inputsSums p) (outputBuckets p)")
      case (Inl e)
      with True eq show ?thesis by auto
    next
      case (Inr t)
      obtain h' ds' rs' where t: "t = (h', ds', rs')" by (cases t) auto
      from True eq Inr t
      have "rl w (p\<lparr>history := h', inputs := ds', inputsSums := rs'\<rparr>) = Some r" by simp
      from IH [OF this] frame_resetTail [OF Inr [unfolded t]]
      show ?thesis by (blast intro: frame_trans)
    qed
  qed
qed

lemma forwardLocked_fresh:
  assumes "forwardLocked ts h = Inr (fwd, h')" "\<not> ts - headTimestamp h < MovingInterval"
  shows "ts - headTimestamp h' < MovingInterval \<and> length (window h') = length (window h)"
proof -
  define k where "k = (ts - headTimestamp h) div MovingInterval"
  have le: "MovingInterval \<le> ts - headTimestamp h" using assms(2) by simp
  have fl: "forward_loop ts (headTimestamp h) 0
      = (word_of_int k, headTimestamp h + k * MovingInterval)"
    using le by (simp add: forward_loop_eq k_def)
  have "ts - (headTimestamp h + k * MovingInterval) = (ts - headTimestamp h) mod MovingInterval"
    by (simp add: k_def algebra_simps minus_mult_div_eq_mod [symmetric])
  then have lt: "ts - (headTimestamp h + k * MovingInterval) < MovingInterval"
    using MovingInterval_pos by simp
  have ns: "\<not> Sub ts (headTimestamp h) < MovingInterval"
    using assms(2) by (simp add: Sub_less_interval)
  from assms(1) have "headTimestamp h' = headTimestamp h + k * MovingInterval \<and>
      length (window h') = length (window h)"
    unfolding forwardLocked_def
    by (simp only: ns if_False fl prod.case) (auto split: if_splits sum.splits)
  with lt show ?thesis by simp
qed

lemma rotate_p_fresh:
  assumes "ts - headTimestamp (history p) < MovingInterval"
  shows "\<exists>ok. rotate_p ts p = Some (Inr (ok, p))"
  by (auto simp add: rotate_p_def Let_def forwardLocked_idle [OF assms])

lemma rotate_p_settles:
  assumes "rotate_p ts p = Some (Inr (ok, p'))"
  shows "p' = p \<or> ts - headTimestamp (history p') < MovingInterval"
proof (cases "ts - headTimestamp (history p) < MovingInterval")
  case True
  from rotate_p_fresh [OF True] assms show ?thesis by auto
next
  case False
  define w where "w = (word_of_int (int (length (window (history p))) - 1) :: int32)"
  show ?thesis
  proof (cases "sint w < sint (Size (history p))")
    case True
    with assms show ?thesis by (simp add: rotate_p_def Let_def w_def)
  next
    case nf: False
    show ?thesis
    proof (cases "forwardLocked ts (history p)")
      case (Inl e)
      with assms nf show ?thesis by (simp add: rotate_p_def Let_def w_def)
    next
      case (Inr t)
      obtain fwd h' where t: "t = (fwd, h')" by (cases t) auto
      from forwardLocked_fresh [OF Inr [unfolded t] False]
      have fr: "ts - headTimestamp h' < MovingInterval" by simp
      show ?thesis
      proof (cases "fwd = 0")
        case True
        with assms nf Inr t have "p' = p\<lparr>history := h'\<rparr>"
          by (simp add: rotate_p_def Let_def w_def)
        with fr show ?thesis by simp
      next
        case False
        with assms nf Inr t have "rotate_loop w (p\<lparr>history := h'\<rparr>) = Some (Inr p')"
          by (simp add: rotate_p_def Let_def w_def split: option.splits sum.splits)
        from rotate_loop_frame [OF this] have "frame (p\<lparr>history := h'\<rparr>) p'" by simp
        with fr show ?thesis by (simp add: frame_def)
      qed
    qed
  qed
qed

lemma rotate_p_again:
  assumes "rotate_p ts p = Some (Inr (ok, p'))"
  shows "\<exists>ok'. rotate_p ts p' = Some (Inr (ok', p'))"
  using rotate_p_settles [OF assms] assms rotate_p_fresh [of ts p'] by auto

text \<open>
  C7. Rotation is idempotent in its timestamp: from every predictor state (reachable or
  not) and for every timestamp, two rotations in a row at the same timestamp end exactly
  as one does: in the same final state (cursors, head timestamp, size, summary, slices),
  or with the same panic, or both without returning.
\<close>

theorem rotate_idempotent:
  "run roundLog2 [RotateOp ts, RotateOp ts] p = run roundLog2 [RotateOp ts] p"
proof (cases "rotate_p ts p")
  case None
  then show ?thesis by simp
next
  case (Some r)
  show ?thesis
  proof (cases r)
    case (Inl e)
    with Some show ?thesis by simp
  next
    case (Inr t)
    obtain ok p' where t: "t = (ok, p')" by (cases t) auto
    from rotate_p_again [OF Some [unfolded Inr t]]
    obtain ok' where "rotate_p ts p' = Some (Inr (ok', p'))" by blast
    with Some Inr t show ?thesis by simp
  qed
qed

subsection \<open>The shape of the predictor is kept\<close>

lemma shape_ring_ok: "shape p \<Longrightarrow> ring_ok (history p)"
  by (auto simp: shape_def ring_ok_def)

lemma set_update_lengths:
  assumes "\<forall>vec \<in> set xs. length vec = k" "length v = k"
  shows "\<forall>vec \<in> set (xs[i := v]). length vec = k"
  using assms set_update_subset_insert [of xs i v] by auto

lemma shape_historyI:
  assumes "shape p" "window h' \<noteq> []"
    and "\<forall>vec \<in> set (window h'). length vec = Suc (cells p)"
    and "head h' < length (window h')" "tail h' < length (window h')"
  shows "shape (p\<lparr>history := h'\<rparr>)"
  using assms by (simp add: shape_def cells_def)

lemma forwardLocked_shape:
  assumes "shape p"
  shows "\<exists>fwd h'. forwardLocked ts (history p) = Inr (fwd, h') \<and> shape (p\<lparr>history := h'\<rparr>)"
proof (cases "ts - headTimestamp (history p) < MovingInterval")
  case True
  then show ?thesis using assms by (simp add: forwardLocked_idle)
next
  case False
  then have le: "MovingInterval \<le> ts - headTimestamp (history p)" by simp
  define h where "h = history p"
  define q where "q = (head h + 1) mod length (window h)"
  define k where "k = (ts - headTimestamp h) div MovingInterval"
  define h' where "h' = h\<lparr>window := (window h)[q := (window h ! q)[length (window h ! q) - 1
                    := word_of_int k]],
               head := q, headTimestamp := headTimestamp h + k * MovingInterval,
               size32 := size32 h + word_of_int k\<rparr>"
  have ne: "window h \<noteq> []" using assms by (simp add: shape_def h_def)
  then have q: "q < length (window h)" by (simp add: q_def)
  have all: "\<forall>vec \<in> set (window h). length vec = Suc (cells p)"
    using assms by (simp add: shape_def h_def)
  then have lq: "length (window h ! q) = Suc (cells p)" using q by simp
  have wh': "window h' = (window h)[q := (window h ! q)[length (window h ! q) - 1
                    := word_of_int k]]"
    by (simp add: h'_def)
  have upd: "\<forall>vec \<in> set (window h'). length vec = Suc (cells p)"
    unfolding wh' by (rule set_update_lengths [OF all]) (simp add: lq)
  have tl: "tail h < length (window h)" using assms by (simp add: shape_def h_def)
  have fl: "forwardLocked ts (history p) = Inr (word_of_int k, h')"
    unfolding forwardLocked_moves [OF shape_ring_ok [OF assms] le]
    by (simp only: h_def [symmetric] q_def [symmetric] k_def [symmetric] h'_def)
  have "shape (p\<lparr>history := h'\<rparr>)"
  proof (rule shape_historyI [OF assms _ upd])
    show "window h' \<noteq> []" using ne by (simp add: h'_def)
    show "head h' < length (window h')" using q by (simp add: h'_def)
    show "tail h' < length (window h')" using tl by (simp add: h'_def)
  qed
  with fl show ?thesis by blast
qed

lemma shape_allI:
  assumes "shape p" "window h' \<noteq> []"
    and "\<forall>vec \<in> set (window h'). length vec = Suc (cells p)"
    and "head h' < length (window h')" "tail h' < length (window h')"
    and "length ds' = cells p" "length rs' = nat (inputBuckets p)"
    and "\<forall>r<nat (inputBuckets p). rs' ! r = rowsum ds' (nat (outputBuckets p)) r"
  shows "shape (p\<lparr>history := h', inputs := ds', inputsSums := rs'\<rparr>)"
  using assms by (simp add: shape_def cells_def)

lemma resetTail_shape_pres:
  assumes "shape p"
  shows "\<exists>h' ds' rs'.
     resetTail (history p) (inputs p) (inputsSums p) (outputBuckets p) = Inr (h', ds', rs') \<and>
     shape (p\<lparr>history := h', inputs := ds', inputsSums := rs'\<rparr>)"
proof -
  define h where "h = history p"
  define L where "L = length (window h)"
  define w' where "w' = (window h)[tail h := replicate (Suc (cells p)) 0]"
  define h' where "h' = h\<lparr>window := w', tail := Suc (tail h) mod L,
              size32 := size32 h - w' ! (Suc (tail h) mod L) ! cells p\<rparr>"
  have all: "\<forall>vec \<in> set (window h). length vec = Suc (cells p)"
    using assms by (simp add: shape_def h_def)
  have upd: "\<forall>vec \<in> set w'. length vec = Suc (cells p)"
    unfolding w'_def by (rule set_update_lengths [OF all]) simp
  have ne: "window h \<noteq> []" using assms by (simp add: shape_def h_def)
  have hd: "head h < length (window h)" using assms by (simp add: shape_def h_def)
  from resetTail_shape [OF assms]
  obtain ds' rs' where res:
    "resetTail (history p) (inputs p) (inputsSums p) (outputBuckets p) = Inr (h', ds', rs')"
    "length ds' = cells p" "length rs' = nat (inputBuckets p)"
    "\<forall>r<nat (inputBuckets p). rs' ! r = rowsum ds' (nat (outputBuckets p)) r"
    unfolding h'_def w'_def L_def h_def by blast
  have wh': "window h' = w'" "head h' = head h" "tail h' = Suc (tail h) mod L"
    by (simp_all add: h'_def)
  have "shape (p\<lparr>history := h', inputs := ds', inputsSums := rs'\<rparr>)"
  proof (rule shape_allI [OF assms _ _ _ _ res(2,3,4)])
    show "window h' \<noteq> []" using ne by (simp add: wh' w'_def)
    show "\<forall>vec\<in>set (window h'). length vec = Suc (cells p)" using upd by (simp add: wh')
    show "head h' < length (window h')" using hd by (simp add: wh' w'_def)
    show "tail h' < length (window h')" using ne by (simp add: wh' w'_def L_def)
  qed
  with res(1) show ?thesis by blast
qed

lemma rotate_loop_shape:
  assumes "rotate_loop w p = Some r"
  shows "shape p \<longrightarrow> (\<exists>p'. r = Inr p' \<and> shape p')"
proof (rule rotate_loop.raw_induct
    [where P = "\<lambda>w p r. shape p \<longrightarrow> (\<exists>p'. r = Inr p' \<and> shape p')", OF _ assms])
  fix rl :: "int32 \<Rightarrow> SimpleOutputPredictor \<Rightarrow> (go_panic + SimpleOutputPredictor) option"
    and w :: int32 and p :: SimpleOutputPredictor and r
  assume IH: "\<And>w p r. rl w p = Some r \<Longrightarrow> shape p \<longrightarrow> (\<exists>p'. r = Inr p' \<and> shape p')"
  assume eq: "(if sint w \<le> sint (Size (history p))
      then case resetTail (history p) (inputs p) (inputsSums p) (outputBuckets p) of
           Inl e \<Rightarrow> Some (Inl e)
         | Inr (hist', distributions', rowSums') \<Rightarrow>
             rl w (p\<lparr>history := hist', inputs := distributions', inputsSums := rowSums'\<rparr>)
      else Some (Inr p)) = Some r"
  show "shape p \<longrightarrow> (\<exists>p'. r = Inr p' \<and> shape p')"
  proof
    assume sh: "shape p"
    show "\<exists>p'. r = Inr p' \<and> shape p'"
    proof (cases "sint w \<le> sint (Size (history p))")
      case False
      with eq sh show ?thesis by auto
    next
      case True
      from resetTail_shape_pres [OF sh]
      obtain h' ds' rs' where res:
        "resetTail (history p) (inputs p) (inputsSums p) (outputBuckets p) = Inr (h', ds', rs')"
        "shape (p\<lparr>history := h', inputs := ds', inputsSums := rs'\<rparr>)"
        by blast
      from True eq res(1)
      have "rl w (p\<lparr>history := h', inputs := ds', inputsSums := rs'\<rparr>) = Some r" by simp
      from IH [OF this] res(2) show ?thesis by blast
    qed
  qed
qed

lemma rotate_p_shape:
  assumes "rotate_p ts p = Some r" "shape p"
  shows "\<exists>ok p'. r = Inr (ok, p') \<and> shape p' \<and>
           inputBuckets p' = inputBuckets p \<and> outputBuckets p' = outputBuckets p"
proof -
  define w where "w = (word_of_int (int (length (window (history p))) - 1) :: int32)"
  from forwardLocked_shape [OF assms(2), of ts]
  obtain fwd h' where f: "forwardLocked ts (history p) = Inr (fwd, h')"
    "shape (p\<lparr>history := h'\<rparr>)" by blast
  show ?thesis
  proof (cases "sint w < sint (Size (history p))")
    case True
    with assms show ?thesis by (auto simp: rotate_p_def Let_def w_def)
  next
    case nf: False
    show ?thesis
    proof (cases "fwd = 0")
      case True
      with assms(1) nf f show ?thesis by (auto simp: rotate_p_def Let_def w_def)
    next
      case False
      with assms(1) nf f obtain r' where
        rl: "rotate_loop w (p\<lparr>history := h'\<rparr>) = Some r'"
        and r: "r = (case r' of Inl e \<Rightarrow> Inl e | Inr p' \<Rightarrow> Inr (True, p'))"
        by (auto simp: rotate_p_def Let_def w_def split: option.splits sum.splits)
      from rotate_loop_shape [OF rl] f(2)
      obtain p' where p': "r' = Inr p'" "shape p'" by blast
      from rotate_loop_frame [OF rl] p'(1)
      have "frame (p\<lparr>history := h'\<rparr>) p'" by simp
      with r p' show ?thesis by (auto simp add: frame_def)
    qed
  qed
qed

subsection \<open>Adding a trace\<close>

lemma idx_bounds:
  fixes ib jb n m :: int
  assumes "0 \<le> ib" "ib < n" "0 \<le> jb" "jb < m"
  shows "0 \<le> ib * m + jb" "ib * m + jb < n * m"
    "nat (ib * m + jb) = nat ib * nat m + nat jb"
    "nat (ib * m + jb) div nat m = nat ib"
proof -
  have m: "0 < m" using assms by simp
  show "0 \<le> ib * m + jb" using assms m by simp
  have "ib * m + jb < ib * m + m" using assms by simp
  also have "\<dots> = (ib + 1) * m" by (simp add: algebra_simps)
  also have "\<dots> \<le> n * m" using assms m by (intro mult_right_mono) simp_all
  finally show "ib * m + jb < n * m" .
  show e: "nat (ib * m + jb) = nat ib * nat m + nat jb"
    using assms m by (simp add: nat_add_distrib nat_mult_distrib)
  have "nat jb < nat m" using assms by simp
  then show "nat (ib * m + jb) div nat m = nat ib"
    unfolding e by simp
qed

lemma bucket_bounds:
  assumes "shape p" "\<forall>a. 1 \<le> a \<longrightarrow> 0 \<le> roundLog2 a"
  shows "0 \<le> token2bucket roundLog2 t (inputBuckets p)"
    "token2bucket roundLog2 t (inputBuckets p) < inputBuckets p"
    "0 \<le> token2bucket roundLog2 t (outputBuckets p)"
    "token2bucket roundLog2 t (outputBuckets p) < outputBuckets p"
  using assms token2bucket_nonneg [of _ roundLog2] token2bucket_less
  by (simp_all add: shape_def)

lemma tryRotate_shape:
  assumes "tryRotate ts p = Some r" "shape p"
  shows "\<exists>p'. r = Inr p' \<and> shape p' \<and>
           inputBuckets p' = inputBuckets p \<and> outputBuckets p' = outputBuckets p"
proof (cases "Sub ts (headTimestamp (history p)) < MovingInterval")
  case True
  with assms show ?thesis by (auto simp add: tryRotate_def)
next
  case False
  with assms(1) obtain r' where r': "rotate_p ts p = Some r'"
    and r: "r = (case r' of Inl e \<Rightarrow> Inl e | Inr (ok, p') \<Rightarrow> Inr p')"
    by (auto simp: tryRotate_def split: option.splits sum.splits)
  from rotate_p_shape [OF r' assms(2)] r show ?thesis by auto
qed

text \<open>What \<open>AddTraceWithTimestamp\<close> does after the rotation probe, on a well-shaped state.\<close>

lemma add_after_probe:
  fixes inputTokens outputTokens :: int and cnt :: int32
  assumes "shape p" "\<forall>a. 1 \<le> a \<longrightarrow> 0 \<le> roundLog2 a"
  defines "ib \<equiv> token2bucket roundLog2 inputTokens (inputBuckets p)"
  defines "idx \<equiv> bucket2idx p ib (token2bucket roundLog2 outputTokens (outputBuckets p))"
  defines "hp \<equiv> head (history p)"
  shows "0 \<le> ib" "nat ib < length (inputsSums p)" "0 \<le> idx" "nat idx < cells p"
    "nat idx div nat (outputBuckets p) = nat ib"
    "add_at (inputs p) idx cnt = Inr ((inputs p)[nat idx := inputs p ! nat idx + cnt])"
    "add_at (inputsSums p) ib cnt = Inr ((inputsSums p)[nat ib := inputsSums p ! nat ib + cnt])"
    "Head (history p) = Inr (window (history p) ! hp)"
    "add_at (window (history p) ! hp) idx cnt =
       Inr ((window (history p) ! hp)[nat idx := window (history p) ! hp ! nat idx + cnt])"
proof -
  note b = bucket_bounds [OF assms(1,2)]
  have n: "length (inputsSums p) = nat (inputBuckets p)" "length (inputs p) = cells p"
    using assms(1) by (simp_all add: shape_def)
  show ib0: "0 \<le> ib" unfolding ib_def by (rule b(1))
  show ibn: "nat ib < length (inputsSums p)" unfolding ib_def n using b(1,2) [of inputTokens] by simp
  note i = idx_bounds [OF b(1,2) [of inputTokens] b(3,4) [of outputTokens]]
  show idx0: "0 \<le> idx" unfolding idx_def ib_def bucket2idx_def by (rule i(1))
  have "idx < inputBuckets p * outputBuckets p"
    unfolding idx_def ib_def bucket2idx_def by (rule i(2))
  then show idxn: "nat idx < cells p" using idx0 by (simp add: cells_def)
  show "nat idx div nat (outputBuckets p) = nat ib"
    unfolding idx_def ib_def bucket2idx_def by (rule i(4))
  have il: "idx < int (length (inputs p))" using idxn idx0 n by simp
  show "add_at (inputs p) idx cnt = Inr ((inputs p)[nat idx := inputs p ! nat idx + cnt])"
    using idx0 il by (simp add: add_at_def)
  have "ib < int (length (inputsSums p))" using ibn ib0 by simp
  then show "add_at (inputsSums p) ib cnt
      = Inr ((inputsSums p)[nat ib := inputsSums p ! nat ib + cnt])"
    using ib0 by (simp add: add_at_def)
  have hl: "hp < length (window (history p))" using assms(1) by (simp add: shape_def hp_def)
  then show "Head (history p) = Inr (window (history p) ! hp)"
    by (simp add: Head_def get_at_def hp_def)
  have "length (window (history p) ! hp) = Suc (cells p)"
    using shape_slot_length [OF assms(1) hl] .
  then have "idx < int (length (window (history p) ! hp))" using idxn idx0 by simp
  then show "add_at (window (history p) ! hp) idx cnt =
       Inr ((window (history p) ! hp)[nat idx := window (history p) ! hp ! nat idx + cnt])"
    using idx0 by (simp add: add_at_def)
qed

lemma AddTrace_unfold:
  fixes inputTokens outputTokens :: int and cnt :: int32
  assumes "tryRotate ts p = Some (Inr p1)" "shape p1" "\<forall>a. 1 \<le> a \<longrightarrow> 0 \<le> roundLog2 a"
  defines "ib \<equiv> token2bucket roundLog2 inputTokens (inputBuckets p1)"
  defines "idx \<equiv> bucket2idx p1 ib (token2bucket roundLog2 outputTokens (outputBuckets p1))"
  shows "AddTraceWithTimestamp roundLog2 inputTokens outputTokens cnt ts p =
    Some (Inr (p1\<lparr>history := (history p1)
                 \<lparr>window := (window (history p1))[head (history p1) :=
                     (window (history p1) ! head (history p1))
                       [nat idx := window (history p1) ! head (history p1) ! nat idx + cnt]]\<rparr>,
               inputs := (inputs p1)[nat idx := inputs p1 ! nat idx + cnt],
               inputsSums := (inputsSums p1)[nat ib := inputsSums p1 ! nat ib + cnt]\<rparr>))"
  unfolding AddTraceWithTimestamp_def assms(1) Let_def
  using add_after_probe(6) [OF assms(2,3), of inputTokens outputTokens cnt]
    add_after_probe(7) [OF assms(2,3), of inputTokens cnt]
    add_after_probe(8) [OF assms(2,3)]
    add_after_probe(9) [OF assms(2,3), of inputTokens outputTokens cnt]
  by (simp add: ib_def idx_def)

lemma AddTrace_shape:
  assumes "shape p" "\<forall>a. 1 \<le> a \<longrightarrow> 0 \<le> roundLog2 a"
    and "AddTraceWithTimestamp roundLog2 inputTokens outputTokens cnt ts p = Some r"
  shows "\<exists>p'. r = Inr p' \<and> shape p' \<and>
           inputBuckets p' = inputBuckets p \<and> outputBuckets p' = outputBuckets p"
proof -
  from assms(3) obtain r1 where r1: "tryRotate ts p = Some r1"
    by (auto simp: AddTraceWithTimestamp_def split: option.splits)
  from tryRotate_shape [OF r1 assms(1)] obtain p1 where p1: "r1 = Inr p1" "shape p1"
    "inputBuckets p1 = inputBuckets p" "outputBuckets p1 = outputBuckets p" by blast
  define ib where "ib = token2bucket roundLog2 inputTokens (inputBuckets p1)"
  define idx where "idx = bucket2idx p1 ib (token2bucket roundLog2 outputTokens (outputBuckets p1))"
  define h where "h = history p1"
  define vec' where "vec' = (window h ! head h)[nat idx := window h ! head h ! nat idx + cnt]"
  define h' where "h' = h\<lparr>window := (window h)[head h := vec']\<rparr>"
  define ds' where "ds' = (inputs p1)[nat idx := inputs p1 ! nat idx + cnt]"
  define rs' where "rs' = (inputsSums p1)[nat ib := inputsSums p1 ! nat ib + cnt]"
  have a4: "nat idx < cells p1"
    unfolding idx_def ib_def by (rule add_after_probe(4) [OF p1(2) assms(2)])
  have a5: "nat idx div nat (outputBuckets p1) = nat ib"
    unfolding idx_def ib_def by (rule add_after_probe(5) [OF p1(2) assms(2)])
  have r: "r = Inr (p1\<lparr>history := h', inputs := ds', inputsSums := rs'\<rparr>)"
    using assms(3) AddTrace_unfold [OF r1 [unfolded p1(1)] p1(2) assms(2),
        of inputTokens outputTokens cnt]
    by (simp add: h'_def vec'_def ds'_def rs'_def h_def ib_def idx_def)
  have hl: "head h < length (window h)" "tail h < length (window h)" "window h \<noteq> []"
    using p1(2) by (simp_all add: shape_def h_def)
  have all: "\<forall>vec \<in> set (window h). length vec = Suc (cells p1)"
    using p1(2) by (simp add: shape_def h_def)
  have lv: "length vec' = Suc (cells p1)" using all hl(1) by (simp add: vec'_def)
  have wh': "window h' = (window h)[head h := vec']" "head h' = head h" "tail h' = tail h"
    by (simp_all add: h'_def)
  have li: "length (inputs p1) = cells p1" "length (inputsSums p1) = nat (inputBuckets p1)"
    using p1(2) by (simp_all add: shape_def)
  have m: "0 < nat (outputBuckets p1)" using shape_dims(4) [OF p1(2)] .
  have rsum: "\<forall>r<nat (inputBuckets p1). rs' ! r = rowsum ds' (nat (outputBuckets p1)) r"
  proof (intro allI impI)
    fix r assume rn: "r < nat (inputBuckets p1)"
    have old: "inputsSums p1 ! r = rowsum (inputs p1) (nat (outputBuckets p1)) r"
      using p1(2) rn by (simp add: shape_def)
    have "rowsum ds' (nat (outputBuckets p1)) r = rowsum (inputs p1) (nat (outputBuckets p1)) r
        + (if nat idx div nat (outputBuckets p1) = r
           then inputs p1 ! nat idx + cnt - inputs p1 ! nat idx else 0)"
      unfolding ds'_def using a4 li(1) m by (intro rowsum_update) simp_all
    moreover have "rs' ! r = (if nat ib = r then inputsSums p1 ! r + cnt else inputsSums p1 ! r)"
      using rn li(2) by (auto simp: rs'_def)
    ultimately show "rs' ! r = rowsum ds' (nat (outputBuckets p1)) r"
      using old a5 by simp
  qed
  have "shape (p1\<lparr>history := h', inputs := ds', inputsSums := rs'\<rparr>)"
  proof (rule shape_allI [OF p1(2) _ _ _ _ _ _ rsum])
    show "window h' \<noteq> []" using hl(3) by (simp add: wh')
    show "\<forall>vec\<in>set (window h'). length vec = Suc (cells p1)"
      unfolding wh' by (rule set_update_lengths [OF all lv])
    show "head h' < length (window h')" using hl(1) by (simp add: wh')
    show "tail h' < length (window h')" using hl(2) by (simp add: wh')
    show "length ds' = cells p1" using li(1) by (simp add: ds'_def)
    show "length rs' = nat (inputBuckets p1)" using li(2) by (simp add: rs'_def)
  qed
  with r p1(3,4) show ?thesis by simp
qed

lemma step_shape:
  assumes "shape p" "\<forall>a. 1 \<le> a \<longrightarrow> 0 \<le> roundLog2 a" "step roundLog2 x p = Some r"
  shows "\<exists>p'. r = Inr p' \<and> shape p' \<and>
           inputBuckets p' = inputBuckets p \<and> outputBuckets p' = outputBuckets p"
proof (cases x)
  case (AddTraceOp i out c ts)
  with assms AddTrace_shape [OF assms(1,2), of i out c ts r] show ?thesis by simp
next
  case (RotateOp ts)
  with assms(3) obtain r' where r': "rotate_p ts p = Some r'"
    and r: "r = (case r' of Inl e \<Rightarrow> Inl e | Inr (ok, p') \<Rightarrow> Inr p')"
    by (auto split: option.splits sum.splits)
  from rotate_p_shape [OF r' assms(1)] r show ?thesis by auto
qed

lemma run_shape:
  assumes "\<forall>a. 1 \<le> a \<longrightarrow> 0 \<le> roundLog2 a"
  shows "shape p \<Longrightarrow> run roundLog2 ops p = Some r \<Longrightarrow>
    \<exists>p'. r = Inr p' \<and> shape p' \<and>
           inputBuckets p' = inputBuckets p \<and> outputBuckets p' = outputBuckets p"
proof (induction ops arbitrary: p)
  case Nil
  then show ?case by auto
next
  case (Cons x xs)
  from Cons.prems(2) obtain r1 where r1: "step roundLog2 x p = Some r1"
    by (auto split: option.splits)
  from step_shape [OF Cons.prems(1) assms r1] obtain p1 where p1: "r1 = Inr p1" "shape p1"
    "inputBuckets p1 = inputBuckets p" "outputBuckets p1 = outputBuckets p" by blast
  from Cons.prems(2) r1 p1(1) have "run roundLog2 xs p1 = Some r" by simp
  from Cons.IH [OF p1(2) this] p1(3,4) show ?case by auto
qed

subsection \<open>The fresh predictor\<close>

lemma New_Inr:
  assumes "NewSimpleOutputPredictor ceilLog2 maxLen maxIn maxOut w now = Inr p0"
    and "0 \<le> w" "w \<le> maxDuration"
    and "ceilLog2 (i64 (maxIn + 1)) = n" "ceilLog2 (i64 (maxOut + 1)) = m"
    and "0 \<le> n" "n \<le> 63" "0 \<le> m" "m \<le> 63"
  shows "p0 = fresh n m w now"
proof -
  define q where "q = w div MovingInterval + (if 0 < w mod MovingInterval then 2 else 1)"
  have nm: "0 \<le> n * m" "n * m \<le> 63 * 63"
    using assms(6-9) mult_mono [of n 63 m 63] by simp_all
  have b: "i64 (n * m) = n * m" "i64 (n * m + 1) = n * m + 1"
    using nm by (simp_all add: i64_id)
  have q: "1 \<le> q" "q < 2 ^ 63"
    using window_div_bounds [OF assms(2,3)] by (simp_all add: q_def)
  have c: "i64 q = q" using q by (simp add: i64_id)
  have g: "go_quot w MovingInterval = w div MovingInterval"
    "go_rem w MovingInterval = w mod MovingInterval"
    using assms(2) MovingInterval_pos by (simp_all add: go_quot_nonneg go_rem_nonneg)
  have e: "(if 0 < w mod MovingInterval then 2 else 1) = q - w div MovingInterval"
    by (simp add: q_def)
  have f: "slots_of w = nat q" by (simp add: slots_of_def q_def)
  from assms(1) have "p0 =
     \<lparr>history = \<lparr>window = replicate (nat q) (replicate (Suc (nat (n * m))) 0),
                  head = 0, tail = 0, headTimestamp = now, size32 = 0\<rparr>,
      inputs = replicate (nat (n * m)) 0, inputsSums = replicate (nat n) 0,
      inputBuckets = n, outputBuckets = m\<rparr>"
    unfolding NewSimpleOutputPredictor_def assms(4,5) g e
    using nm q assms(6)
    by (simp add: b c make_int32_def Let_def nat_add_distrib split: if_splits)
  then show ?thesis by (simp add: fresh_def f)
qed

lemma rowsum_zero:
  assumes "r < n"
  shows "rowsum (replicate (n * m) 0) m r = 0"
proof -
  have "r * m + j < n * m" if "j < m" for j
  proof -
    have "r * m + j < r * m + m" using that by simp
    also have "\<dots> = Suc r * m" by simp
    also have "\<dots> \<le> n * m" using assms by (intro mult_le_mono1) simp
    finally show ?thesis .
  qed
  then show ?thesis by (simp add: rowsum_def)
qed

lemma slots_of_pos:
  assumes "0 \<le> w"
  shows "1 \<le> slots_of w"
proof -
  have "0 \<le> w div MovingInterval"
    using assms MovingInterval_pos by (simp add: pos_imp_zdiv_nonneg_iff)
  then show ?thesis by (simp add: slots_of_def) linarith
qed

lemma fresh_shape:
  assumes "1 \<le> n" "1 \<le> m" "0 \<le> w"
  shows "shape (fresh n m w now)"
proof -
  have c: "cells (fresh n m w now) = nat n * nat m"
    using assms by (simp add: cells_def fresh_def nat_mult_distrib)
  have rs: "\<forall>r<nat n. replicate (nat n) (0::int32) ! r = rowsum (replicate (nat n * nat m) 0) (nat m) r"
    by (simp add: rowsum_zero)
  show ?thesis
    unfolding shape_def c using assms slots_of_pos [OF assms(3)] rs
    by (simp add: fresh_def nat_mult_distrib del: replicate_Suc)
qed

subsection \<open>Prediction on a well-shaped predictor\<close>




lemma predict_loop_in_range:
  "0 \<le> i \<Longrightarrow> sr \<le> int (length ds) \<Longrightarrow> \<exists>v. predict_loop ds cursor sr m i acc = Inr v"
proof (induction ds cursor sr m i acc rule: predict_loop.induct)
  case (1 ds cursor sr m i acc)
  show ?case
  proof (cases "i < sr")
    case False
    then show ?thesis by (subst predict_loop.simps) simp
  next
    case True
    then have x: "get_at ds i = Inr (ds ! nat i)"
      using "1.prems" by (simp add: get_at_def)
    show ?thesis
    proof (cases "sint cursor < sint (acc + ds ! nat i)")
      case c: True
      with True x show ?thesis by (subst predict_loop.simps) simp
    next
      case c: False
      from "1.IH" [OF True x c] "1.prems" obtain v where
        "predict_loop ds cursor sr m (i + 1) (acc + ds ! nat i) = Inr v" by auto
      with True x c show ?thesis by (subst predict_loop.simps) simp
    qed
  qed
qed

text \<open>On a well-shaped predictor \<open>Predict\<close> panics only when the random source does.\<close>

lemma Predict_shape:
  assumes "shape p" "\<forall>a. 1 \<le> a \<longrightarrow> 0 \<le> roundLog2 a"
    and "fst (Predict rand intn roundLog2 inputTokens p) = Inl e"
  shows "rand (inputsSums p ! nat (token2bucket roundLog2 inputTokens (inputBuckets p))) = Inl e"
proof -
  define ib where "ib = token2bucket roundLog2 inputTokens (inputBuckets p)"
  note b = bucket_bounds(1,2) [OF assms(1,2), of inputTokens, folded ib_def]
  have n: "length (inputsSums p) = nat (inputBuckets p)" "length (inputs p) = cells p"
    using assms(1) by (simp_all add: shape_def)
  have g: "get_at (inputsSums p) ib = Inr (inputsSums p ! nat ib)"
    using b n by (simp add: get_at_def)
  have m: "1 \<le> outputBuckets p" using assms(1) by (simp add: shape_def)
  have "(ib + 1) * outputBuckets p \<le> inputBuckets p * outputBuckets p"
    using b m by (intro mult_right_mono) simp_all
  then have sr: "(ib + 1) * outputBuckets p \<le> int (length (inputs p))"
    using b m by (simp add: n cells_def)
  have i0: "0 \<le> (ib + 1) * outputBuckets p - outputBuckets p"
    using b m by (simp add: algebra_simps)
  have lp: "\<exists>v. predict_loop (inputs p) cursor ((ib + 1) * outputBuckets p) (outputBuckets p)
         ((ib + 1) * outputBuckets p - outputBuckets p) 0 = Inr v" for cursor
    by (rule predict_loop_in_range [OF i0 sr])
  show ?thesis
  proof (cases "inputsSums p ! nat ib = 0")
    case True
    with assms(3) g show ?thesis by (simp add: Predict_def Let_def ib_def [symmetric])
  next
    case False
    show ?thesis
    proof (cases "rand (inputsSums p ! nat ib)")
      case (Inl e')
      with assms(3) g False show ?thesis
        by (simp add: Predict_def Let_def ib_def [symmetric])
    next
      case (Inr cursor)
      with assms(3) g False lp [of cursor] show ?thesis
        by (auto simp: Predict_def Let_def ib_def [symmetric])
    qed
  qed
qed

subsection \<open>Indices stay in bounds\<close>

lemma fresh_reach_shape:
  assumes "NewSimpleOutputPredictor ceilLog2 maxLen maxIn maxOut w now = Inr p0"
    and "0 \<le> w" "w \<le> maxDuration"
    and "1 \<le> ceilLog2 (i64 (maxIn + 1))" "ceilLog2 (i64 (maxIn + 1)) \<le> 63"
    and "1 \<le> ceilLog2 (i64 (maxOut + 1))" "ceilLog2 (i64 (maxOut + 1)) \<le> 63"
    and "\<forall>a. 1 \<le> a \<longrightarrow> 0 \<le> roundLog2 a"
    and "run roundLog2 ops p0 = Some (Inr p)"
  shows "shape p" "inputBuckets p = ceilLog2 (i64 (maxIn + 1))"
    "outputBuckets p = ceilLog2 (i64 (maxOut + 1))"
proof -
  have p0: "p0 = fresh (ceilLog2 (i64 (maxIn + 1))) (ceilLog2 (i64 (maxOut + 1))) w now"
    by (rule New_Inr [OF assms(1,2,3) refl refl]) (use assms(4-7) in simp_all)
  have s0: "shape p0" unfolding p0 by (rule fresh_shape [OF assms(4,6,2)])
  from run_shape [OF assms(8) s0 assms(9)]
  show "shape p" "inputBuckets p = ceilLog2 (i64 (maxIn + 1))"
    "outputBuckets p = ceilLog2 (i64 (maxOut + 1))"
    by (simp_all add: p0 fresh_def)
qed

text \<open>
  C8, as amended. Take a predictor constructed with sizes of at least 1 (and below the
  largest \<open>int\<close>, so that \<open>max + 1\<close> does not wrap) and a window that is not negative,
  and any state \<open>p\<close> it reaches by a sequential run of traces and rotations. Provided
  the library's rounded logarithm is not negative on the positive counts and its
  rounded-up logarithm of a number in \<open>[2, 2^63)\<close> is between 1 and 63:
  both buckets of \<open>token2bucket\<close> are in range, the cell index is within the summary,
  the input bucket within the row sums, the head within the ring and the cell index
  within the head slice; \<open>AddTraceWithTimestamp\<close> never panics, whatever its arguments
  (the rotation it may run included); and \<open>Predict\<close> panics only if the random source
  does.
\<close>

theorem indices_in_bounds:
  assumes "NewSimpleOutputPredictor ceilLog2 maxLen maxInputTokens maxOutputTokens
             windowDuration now = Inr p0"
    and "1 \<le> maxInputTokens" "maxInputTokens < 2 ^ 63 - 1"
    and "1 \<le> maxOutputTokens" "maxOutputTokens < 2 ^ 63 - 1"
    and "0 \<le> windowDuration" "windowDuration \<le> maxDuration"
    and "\<forall>x. 2 \<le> x \<and> x < 2 ^ 63 \<longrightarrow> 1 \<le> ceilLog2 x \<and> ceilLog2 x \<le> 63"
    and "\<forall>a. 1 \<le> a \<longrightarrow> 0 \<le> roundLog2 a"
    and "run roundLog2 ops p0 = Some (Inr p)"
  shows "0 \<le> token2bucket roundLog2 inputTokens (inputBuckets p) \<and>
    token2bucket roundLog2 inputTokens (inputBuckets p) < inputBuckets p \<and>
    0 \<le> token2bucket roundLog2 outputTokens (outputBuckets p) \<and>
    token2bucket roundLog2 outputTokens (outputBuckets p) < outputBuckets p \<and>
    0 \<le> bucket2idx p (token2bucket roundLog2 inputTokens (inputBuckets p))
          (token2bucket roundLog2 outputTokens (outputBuckets p)) \<and>
    bucket2idx p (token2bucket roundLog2 inputTokens (inputBuckets p))
      (token2bucket roundLog2 outputTokens (outputBuckets p)) < int (length (inputs p)) \<and>
    token2bucket roundLog2 inputTokens (inputBuckets p) < int (length (inputsSums p)) \<and>
    head (history p) < length (window (history p)) \<and>
    bucket2idx p (token2bucket roundLog2 inputTokens (inputBuckets p))
      (token2bucket roundLog2 outputTokens (outputBuckets p))
      < int (length (window (history p) ! head (history p))) \<and>
    (\<forall>cnt ts e. AddTraceWithTimestamp roundLog2 inputTokens outputTokens cnt ts p
                  \<noteq> Some (Inl e)) \<and>
    (\<forall>rand intn e. fst (Predict rand intn roundLog2 inputTokens p) = Inl e \<longrightarrow>
       rand (inputsSums p ! nat (token2bucket roundLog2 inputTokens (inputBuckets p))) = Inl e)"
proof -
  have i: "i64 (maxInputTokens + 1) = maxInputTokens + 1"
    "i64 (maxOutputTokens + 1) = maxOutputTokens + 1"
    using assms(2-5) by (simp_all add: i64_id)
  have n: "1 \<le> ceilLog2 (i64 (maxInputTokens + 1))" "ceilLog2 (i64 (maxInputTokens + 1)) \<le> 63"
    using assms(8) [rule_format, of "maxInputTokens + 1"] assms(2,3) by (simp_all add: i)
  have m: "1 \<le> ceilLog2 (i64 (maxOutputTokens + 1))" "ceilLog2 (i64 (maxOutputTokens + 1)) \<le> 63"
    using assms(8) [rule_format, of "maxOutputTokens + 1"] assms(4,5) by (simp_all add: i)
  have s: "shape p"
    by (rule fresh_reach_shape(1) [OF assms(1,6,7) n m assms(9,10)])
  note b = bucket_bounds [OF s assms(9)]
  note a = idx_bounds(1,2) [OF b(1,2) [of inputTokens] b(3,4) [of outputTokens]]
  have l: "length (inputs p) = cells p" "length (inputsSums p) = nat (inputBuckets p)"
    "head (history p) < length (window (history p))"
    using s by (simp_all add: shape_def)
  have lv: "length (window (history p) ! head (history p)) = Suc (cells p)"
    by (rule shape_slot_length [OF s l(3)])
  have idx: "bucket2idx p (token2bucket roundLog2 inputTokens (inputBuckets p))
      (token2bucket roundLog2 outputTokens (outputBuckets p)) < int (cells p)"
    using a by (simp add: bucket2idx_def cells_def)
  have add: "AddTraceWithTimestamp roundLog2 inputTokens outputTokens cnt ts p \<noteq> Some (Inl e)"
    for cnt ts e
    using AddTrace_shape [OF s assms(9), of inputTokens outputTokens cnt ts "Inl e"] by auto
  have pr: "fst (Predict rand intn roundLog2 inputTokens p) = Inl e \<Longrightarrow>
       rand (inputsSums p ! nat (token2bucket roundLog2 inputTokens (inputBuckets p))) = Inl e"
    for rand intn e
    by (rule Predict_shape [OF s assms(9)])
  have ibl: "token2bucket roundLog2 inputTokens (inputBuckets p) < int (length (inputsSums p))"
    using b(1,2) [of inputTokens] by (simp add: l(2))
  show ?thesis
    using b(1,2) [of inputTokens] b(3,4) [of outputTokens] a(1) idx ibl l(3) add pr
    by (simp add: l(1) lv bucket2idx_def)
qed

lemma ceil_log2_range: "\<forall>x. 2 \<le> x \<and> x < 2 ^ 63 \<longrightarrow> 1 \<le> ceil_log2 x \<and> ceil_log2 x \<le> 63"
  using ceil_log2_pos ceil_log2_bounds(2) by simp

lemma round_log2_lib: "\<forall>a. 1 \<le> a \<longrightarrow> 0 \<le> round_log2 a"
  by (simp add: round_log2_nonneg)

lemma New_small:
  "NewSimpleOutputPredictor ceil_log2 1000000 1 1 10000000000 0 =
     Inr \<lparr>history = \<lparr>window = [[0, 0], [0, 0]], head = 0, tail = 0, headTimestamp = 0,
                       size32 = 0\<rparr>,
          inputs = [0], inputsSums = [0], inputBuckets = 1, outputBuckets = 1\<rparr>"
proof -
  have "NewSimpleOutputPredictor ceil_log2 1000000 1 1 10000000000 0 =
     Inr \<lparr>history = \<lparr>window = replicate (slots_of 10000000000) (replicate (Suc (nat (1 * 1))) 0),
                       head = 0, tail = 0, headTimestamp = 0, size32 = 0\<rparr>,
          inputs = replicate (nat (1 * 1)) 0, inputsSums = replicate (nat 1) 0,
          inputBuckets = 1, outputBuckets = 1\<rparr>"
    by (rule NewSimpleOutputPredictor_ok)
      (simp_all add: maxDuration_def slots_of_def MovingInterval_def ceil_log2_eval i64_eval)
  then show ?thesis by (simp add: slots_of_def MovingInterval_def numeral_2_eq_2)
qed

lemma run_small:
  "run round_log2 [AddTraceOp 1 1 1 0]
     \<lparr>history = \<lparr>window = [[0, 0], [0, 0]], head = 0, tail = 0, headTimestamp = 0,
                  size32 = 0\<rparr>,
      inputs = [0], inputsSums = [0], inputBuckets = 1, outputBuckets = 1\<rparr> =
   Some (Inr \<lparr>history = \<lparr>window = [[1, 0], [0, 0]], head = 0, tail = 0, headTimestamp = 0,
                  size32 = 0\<rparr>,
      inputs = [1], inputsSums = [1], inputBuckets = 1, outputBuckets = 1\<rparr>)"
  by (simp add: AddTraceWithTimestamp_def tryRotate_def Sub_def maxDuration_def minDuration_def
      MovingInterval_def token2bucket_eval bucket2idx_def add_at_def Head_def get_at_def Let_def)

theorem indices_in_bounds_witness:
  "NewSimpleOutputPredictor ceil_log2 1000000 1 1 10000000000 0 =
     Inr \<lparr>history = \<lparr>window = [[0, 0], [0, 0]], head = 0, tail = 0, headTimestamp = 0,
                       size32 = 0\<rparr>,
          inputs = [0], inputsSums = [0], inputBuckets = 1, outputBuckets = 1\<rparr> \<and>
   run round_log2 [AddTraceOp 1 1 1 0]
     \<lparr>history = \<lparr>window = [[0, 0], [0, 0]], head = 0, tail = 0, headTimestamp = 0,
                  size32 = 0\<rparr>,
      inputs = [0], inputsSums = [0], inputBuckets = 1, outputBuckets = 1\<rparr> =
   Some (Inr \<lparr>history = \<lparr>window = [[1, 0], [0, 0]], head = 0, tail = 0, headTimestamp = 0,
                  size32 = 0\<rparr>,
      inputs = [1], inputsSums = [1], inputBuckets = 1, outputBuckets = 1\<rparr>) \<and>
   token2bucket round_log2 200 1 = 0 \<and>
   AddTraceWithTimestamp round_log2 200 200 5 30000000000
     \<lparr>history = \<lparr>window = [[1, 0], [0, 0]], head = 0, tail = 0, headTimestamp = 0,
                  size32 = 0\<rparr>,
      inputs = [1], inputsSums = [1], inputBuckets = 1, outputBuckets = 1\<rparr>
     \<noteq> Some (Inl IndexOutOfRange) \<and>
   fst (Predict rand_zero intn_zero round_log2 200
     \<lparr>history = \<lparr>window = [[1, 0], [0, 0]], head = 0, tail = 0, headTimestamp = 0,
                  size32 = 0\<rparr>,
      inputs = [1], inputsSums = [1], inputBuckets = 1, outputBuckets = 1\<rparr>) \<noteq> Inl IndexOutOfRange"
proof -
  have r: "rand_zero 1 = Inr 0" by (simp add: rand_zero_def Int31n_def draw_zero_def)
  have "(\<forall>cnt ts e. AddTraceWithTimestamp round_log2 200 200 cnt ts
     \<lparr>history = \<lparr>window = [[1, 0], [0, 0]], head = 0, tail = 0, headTimestamp = 0,
                  size32 = 0\<rparr>,
      inputs = [1], inputsSums = [1], inputBuckets = 1, outputBuckets = 1\<rparr>
     \<noteq> Some (Inl e)) \<and>
    (\<forall>rand intn e. fst (Predict rand intn round_log2 200
     \<lparr>history = \<lparr>window = [[1, 0], [0, 0]], head = 0, tail = 0, headTimestamp = 0,
                  size32 = 0\<rparr>,
      inputs = [1], inputsSums = [1], inputBuckets = 1, outputBuckets = 1\<rparr>) = Inl e \<longrightarrow>
       rand 1 = Inl e)"
    using indices_in_bounds [OF New_small _ _ _ _ _ _ ceil_log2_range round_log2_lib run_small,
      of 200 200]
    by (simp add: maxDuration_def token2bucket_eval)
  then have a: "AddTraceWithTimestamp round_log2 200 200 5 30000000000
     \<lparr>history = \<lparr>window = [[1, 0], [0, 0]], head = 0, tail = 0, headTimestamp = 0,
                  size32 = 0\<rparr>,
      inputs = [1], inputsSums = [1], inputBuckets = 1, outputBuckets = 1\<rparr>
     \<noteq> Some (Inl IndexOutOfRange)"
    and b: "fst (Predict rand_zero intn_zero round_log2 200
     \<lparr>history = \<lparr>window = [[1, 0], [0, 0]], head = 0, tail = 0, headTimestamp = 0,
                  size32 = 0\<rparr>,
      inputs = [1], inputsSums = [1], inputBuckets = 1, outputBuckets = 1\<rparr>) = Inl IndexOutOfRange
      \<longrightarrow> rand_zero 1 = Inl IndexOutOfRange"
    by blast+
  from b r have "fst (Predict rand_zero intn_zero round_log2 200
     \<lparr>history = \<lparr>window = [[1, 0], [0, 0]], head = 0, tail = 0, headTimestamp = 0,
                  size32 = 0\<rparr>,
      inputs = [1], inputsSums = [1], inputBuckets = 1, outputBuckets = 1\<rparr>) \<noteq> Inl IndexOutOfRange"
    by auto
  with a show ?thesis
    by (simp add: New_small run_small token2bucket_eval del: run.simps)
qed

text \<open>
  The claim as stated puts no condition on the window. With sizes 1 and a window of
  minus ten seconds the constructor builds a ring without slots
  (\<open>int(window/MovingInterval) + extraSlot = -1 + 1\<close>), and the first trace panics at
  \<open>p.history.window[p.history.head]\<close>.
\<close>

theorem empty_ring_counterexample:
  "NewSimpleOutputPredictor ceil_log2 1000000 1 1 (- 10000000000) 0 =
     Inr \<lparr>history = \<lparr>window = [], head = 0, tail = 0, headTimestamp = 0, size32 = 0\<rparr>,
          inputs = [0], inputsSums = [0], inputBuckets = 1, outputBuckets = 1\<rparr> \<and>
   AddTraceWithTimestamp round_log2 1 1 1 0
     \<lparr>history = \<lparr>window = [], head = 0, tail = 0, headTimestamp = 0, size32 = 0\<rparr>,
      inputs = [0], inputsSums = [0], inputBuckets = 1, outputBuckets = 1\<rparr>
   = Some (Inl IndexOutOfRange)"
  by (simp add: NewSimpleOutputPredictor_def go_quot_def go_rem_def MovingInterval_def
      ceil_log2_eval i64_eval make_int32_def Let_def i64_def
      AddTraceWithTimestamp_def tryRotate_def Sub_def maxDuration_def minDuration_def
      token2bucket_eval bucket2idx_def add_at_def Head_def get_at_def)

subsection \<open>The overflow clamp\<close>










end
